theory Spec2Isabelle
  imports Complex_Main "HOL-Library.Char_ord" "HOL-Library.List_Lexorder"
begin

section \<open>The environment of the script\<close>

text \<open>
  The script \<^verbatim>\<open>scripts/generate_test_data.py\<close> draws from Python's global random
  source and reads the wall clock. Both are made explicit: a \<open>world\<close> carries the
  outcomes the random source will deliver, one natural number per draw, and the readings
  the clock will deliver, in microseconds on an unbounded time line. Every draw and every
  reading consumes the head of its tape. Quantifying over all worlds quantifies over all
  random outcomes and all clocks; a seeded random source is a fixed \<open>tape\<close>.

  Strings compare as in Python: by code point, lexicographically, a proper prefix first.
\<close>

record world =
  tape :: "nat \<Rightarrow> nat"
  clock :: "nat \<Rightarrow> int"

datatype error = KeyError | IndexError | ValueError

type_synonym 'a gen = "world \<Rightarrow> error + 'a \<times> world"

definition returng :: "'a \<Rightarrow> 'a gen" where
  "returng x w = Inr (x, w)"

definition throw :: "error \<Rightarrow> 'a gen" where
  "throw e w = Inl e"

definition bindg :: "'a gen \<Rightarrow> ('a \<Rightarrow> 'b gen) \<Rightarrow> 'b gen" where
  "bindg m f w = (case m w of Inl e \<Rightarrow> Inl e | Inr (x, w') \<Rightarrow> f x w')"

subsection \<open>The library calls the script makes\<close>

text \<open>
  \<open>randbelow n\<close> is the library's uniform choice of an index below \<open>n\<close>: the next
  outcome of the tape, reduced below \<open>n\<close>. Every index below \<open>n\<close> is the result for
  some tape.
\<close>

definition advance :: "world \<Rightarrow> world" where
  "advance w = w\<lparr>tape := (\<lambda>i. tape w (Suc i))\<rparr>"

definition randbelow :: "nat \<Rightarrow> nat gen" where
  "randbelow n w = Inr (tape w 0 mod n, advance w)"

text \<open>\<^verbatim>\<open>random.choice(seq)\<close> raises IndexError on an empty sequence.\<close>

definition choice :: "'a list \<Rightarrow> 'a gen" where
  "choice seq =
     (if seq = [] then throw IndexError
      else bindg (randbelow (length seq)) (\<lambda>j. returng (seq ! j)))"

text \<open>\<^verbatim>\<open>random.randint(a, b)\<close> raises ValueError on an empty range.\<close>

definition randint :: "nat \<Rightarrow> nat \<Rightarrow> nat gen" where
  "randint a b =
     (if b < a then throw ValueError
      else bindg (randbelow (b - a + 1)) (\<lambda>j. returng (a + j)))"

text \<open>
  \<^verbatim>\<open>random.sample(population, k)\<close> returns \<open>k\<close> elements at pairwise different
  positions of the population and raises ValueError when \<open>k\<close> exceeds its length. The
  model selects from a pool, as the library does for a small population: the element at a
  random index of the pool is taken and the last element of the pool moves into its place.
  For a large population the library draws again when an index was drawn before; the
  lists it can return are the same, the sequences of \<open>k\<close> different positions.
\<close>

fun sample_pool :: "'a list \<Rightarrow> nat \<Rightarrow> 'a list gen" where
  "sample_pool pool 0 = returng []"
| "sample_pool pool (Suc k) =
     bindg (randbelow (length pool)) (\<lambda>j.
     bindg (sample_pool (butlast (pool[j := last pool])) k) (\<lambda>rest.
     returng (pool ! j # rest)))"

definition sample :: "'a list \<Rightarrow> nat \<Rightarrow> 'a list gen" where
  "sample population k =
     (if length population < k then throw ValueError else sample_pool population k)"

text \<open>
  \<^verbatim>\<open>random.random()\<close> is a multiple of \<open>2\<^sup>-\<^sup>5\<^sup>3\<close> in \<open>[0, 1)\<close>, and
  \<^verbatim>\<open>random.uniform(a, b)\<close> is \<^verbatim>\<open>a + (b - a) * random()\<close>. The arithmetic is that
  of the real numbers; the rounding of binary floating point is not modelled.
  \<^verbatim>\<open>round(x, 2)\<close> rounds to the nearest hundredth, a tie to the even one.
\<close>

definition random :: "real gen" where
  "random w = Inr (real (tape w 0 mod 2 ^ 53) / 2 ^ 53, advance w)"

definition uniform :: "real \<Rightarrow> real \<Rightarrow> real gen" where
  "uniform a b = bindg random (\<lambda>r. returng (a + (b - a) * r))"

definition round2 :: "real \<Rightarrow> real" where
  "round2 x =
     (let y = x * 100; f = \<lfloor>y\<rfloor>; r = y - of_int f
      in of_int (if r < 1 / 2 then f
                 else if 1 / 2 < r then f + 1
                 else if even f then f else f + 1) / 100)"

text \<open>
  \<^verbatim>\<open>datetime.now()\<close> is the next reading of the clock. A \<^verbatim>\<open>timedelta\<close> is a
  number of microseconds, and adding one to a time is exact. The range of years a
  \<^verbatim>\<open>datetime\<close> can hold is not modelled.
\<close>

definition now :: "int gen" where
  "now w = Inr (clock w 0, w\<lparr>clock := (\<lambda>i. clock w (Suc i))\<rparr>)"

definition hours :: "nat \<Rightarrow> int" where
  "hours h = int h * 3600000000"

definition minutes :: "nat \<Rightarrow> int" where
  "minutes m = int m * 60000000"

text \<open>
  The format \<^verbatim>\<open>{i:05d}\<close>: the decimal digits of \<open>i\<close>, padded with zeros on the left to
  five characters.
\<close>

fun decimal :: "nat \<Rightarrow> string" where
  "decimal n =
     (if n < 10 then [char_of (48 + n)]
      else decimal (n div 10) @ [char_of (48 + n mod 10)])"

declare decimal.simps [simp del]

definition format_05d :: "nat \<Rightarrow> string" where
  "format_05d i = replicate (5 - length (decimal i)) (CHR ''0'') @ decimal i"

section \<open>The generator\<close>

subsection \<open>Data\<close>

record location =
  location_id :: string

record movement =
  device_id :: string
  owner_id :: string
  timestamp :: string
  location :: location
  movement_type :: string
  confidence_level :: real

record TestDataGenerator =
  base_url :: string
  device_ids :: "string list"
  owner_ids :: "string list"
  location_ids :: "string list"
  terrorist_cells :: "string list list"
  cell_locations :: "string list \<rightharpoonup> string list"

subsection \<open>Construction\<close>

text \<open>
  The dictionary comprehension of \<^verbatim>\<open>__init__\<close>: for each cell in order, five
  locations sampled from the location pool, stored under the cell's members.
\<close>

fun sample_cell_locations ::
  "string list \<Rightarrow> string list list \<Rightarrow> (string list \<rightharpoonup> string list)
     \<Rightarrow> (string list \<rightharpoonup> string list) gen" where
  "sample_cell_locations pool [] d = returng d"
| "sample_cell_locations pool (cell # cells) d =
     bindg (sample pool 5) (\<lambda>locs. sample_cell_locations pool cells (d(cell \<mapsto> locs)))"

definition init :: "string \<Rightarrow> TestDataGenerator gen" where
  "init url =
     (let devices = map (\<lambda>i. CHR ''D'' # format_05d i) [0..<50];
          owners = map (\<lambda>i. CHR ''O'' # format_05d i) [0..<30];
          locs = map (\<lambda>i. CHR ''L'' # format_05d i) [0..<20];
          cells = map (\<lambda>i. take 5 (drop i owners)) [0, 5, 10]
      in bindg (sample_cell_locations locs cells Map.empty) (\<lambda>d.
         returng \<lparr>base_url = url, device_ids = devices, owner_ids = owners,
                  location_ids = locs, terrorist_cells = cells, cell_locations = d\<rparr>))"

subsection \<open>Pattern generators\<close>

text \<open>
  \<^verbatim>\<open>isoformat()\<close> is a library function; the generators take it as the parameter
  \<open>isoformat\<close>, from a time to its ISO-8601 text. Dictionary literals evaluate their entries
  in order, which fixes the order of the draws below.
\<close>

definition generate_normal_movement ::
  "(int \<Rightarrow> string) \<Rightarrow> TestDataGenerator \<Rightarrow> movement gen" where
  "generate_normal_movement isoformat g =
     bindg (choice (device_ids g)) (\<lambda>device.
     bindg (choice (owner_ids g)) (\<lambda>owner.
     bindg (choice (location_ids g)) (\<lambda>loc.
     bindg now (\<lambda>t.
     bindg (randint 0 48) (\<lambda>h.
     bindg (choice [''walking'', ''vehicle'']) (\<lambda>mt.
     bindg (uniform 0.7 1.0) (\<lambda>u.
     returng \<lparr>device_id = device, owner_id = owner, timestamp = isoformat (t - hours h),
              location = \<lparr>location_id = loc\<rparr>, movement_type = mt,
              confidence_level = round2 u\<rparr>)))))))"

text \<open>
  The comprehension that assigns devices: for each member in order, between one and three
  devices sampled from the whole device pool, stored under the member.
\<close>

fun assign_devices ::
  "string list \<Rightarrow> string list \<Rightarrow> (string \<rightharpoonup> string list) \<Rightarrow> (string \<rightharpoonup> string list) gen" where
  "assign_devices pool [] d = returng d"
| "assign_devices pool (member # members) d =
     bindg (randint 1 3) (\<lambda>k.
     bindg (sample pool k) (\<lambda>devs.
     assign_devices pool members (d(member \<mapsto> devs))))"

text \<open>
  The first lines of \<^verbatim>\<open>generate_cell_movement_pattern\<close>: the lookup of the cell's
  locations (a KeyError when the members are no key), the base time and the assignment of
  devices.
\<close>

definition cell_pattern_setup ::
  "TestDataGenerator \<Rightarrow> string list
     \<Rightarrow> (string list \<times> int \<times> (string \<rightharpoonup> string list)) gen" where
  "cell_pattern_setup g cell_members =
     (case cell_locations g cell_members of
        None \<Rightarrow> throw KeyError
      | Some locations \<Rightarrow>
          bindg now (\<lambda>t.
          bindg (randint 0 48) (\<lambda>h.
          bindg (assign_devices (device_ids g) cell_members Map.empty) (\<lambda>member_devices.
          returng (locations, t - hours h, member_devices)))))"

text \<open>The innermost loop: each device of a member emits two records.\<close>

fun device_loop ::
  "(int \<Rightarrow> string) \<Rightarrow> int \<Rightarrow> string \<Rightarrow> string \<Rightarrow> string \<Rightarrow> string list
     \<Rightarrow> movement list \<Rightarrow> movement list gen" where
  "device_loop isoformat base_time current_loc next_loc member [] movements = returng movements"
| "device_loop isoformat base_time current_loc next_loc member (device # devices) movements =
     bindg (randint 0 30) (\<lambda>m1.
     bindg (choice [''walking'', ''vehicle'']) (\<lambda>mt1.
     bindg (uniform 0.8 1.0) (\<lambda>u1.
     bindg (randint 45 90) (\<lambda>m2.
     bindg (choice [''walking'', ''vehicle'']) (\<lambda>mt2.
     bindg (uniform 0.8 1.0) (\<lambda>u2.
     device_loop isoformat base_time current_loc next_loc member devices
       (movements @
        [\<lparr>device_id = device, owner_id = member, timestamp = isoformat (base_time + minutes m1),
          location = \<lparr>location_id = current_loc\<rparr>, movement_type = mt1,
          confidence_level = round2 u1\<rparr>,
         \<lparr>device_id = device, owner_id = member, timestamp = isoformat (base_time + minutes m2),
          location = \<lparr>location_id = next_loc\<rparr>, movement_type = mt2,
          confidence_level = round2 u2\<rparr>])))))))"

fun member_loop ::
  "(int \<Rightarrow> string) \<Rightarrow> int \<Rightarrow> string \<Rightarrow> string \<Rightarrow> (string \<rightharpoonup> string list)
     \<Rightarrow> string list \<Rightarrow> movement list \<Rightarrow> movement list gen" where
  "member_loop isoformat base_time current_loc next_loc member_devices [] movements =
     returng movements"
| "member_loop isoformat base_time current_loc next_loc member_devices (member # members) movements =
     (case member_devices member of
        None \<Rightarrow> throw KeyError
      | Some devices \<Rightarrow>
          bindg (device_loop isoformat base_time current_loc next_loc member devices movements)
            (member_loop isoformat base_time current_loc next_loc member_devices members))"

text \<open>
  The outer loop runs over the indices \<open>i\<close> of the locations; the base time advances by
  two hours after each index.
\<close>

fun location_loop ::
  "(int \<Rightarrow> string) \<Rightarrow> string list \<Rightarrow> string list \<Rightarrow> (string \<rightharpoonup> string list)
     \<Rightarrow> nat list \<Rightarrow> int \<Rightarrow> movement list \<Rightarrow> movement list gen" where
  "location_loop isoformat locations cell_members member_devices [] base_time movements =
     returng movements"
| "location_loop isoformat locations cell_members member_devices (i # rest) base_time movements =
     bindg (member_loop isoformat base_time (locations ! i)
              (locations ! ((i + 1) mod length locations)) member_devices cell_members movements)
       (location_loop isoformat locations cell_members member_devices rest (base_time + hours 2))"

definition generate_cell_movement_pattern ::
  "(int \<Rightarrow> string) \<Rightarrow> TestDataGenerator \<Rightarrow> string list \<Rightarrow> movement list gen" where
  "generate_cell_movement_pattern isoformat g cell_members =
     bindg (cell_pattern_setup g cell_members) (\<lambda>(locations, base_time, member_devices).
     location_loop isoformat locations cell_members member_devices [0..<length locations]
       base_time [])"

text \<open>
  The loop of \<^verbatim>\<open>generate_device_transfer_pattern\<close> over the indices of the cell; the
  base time advances by three hours after each index.
\<close>

fun transfer_loop ::
  "(int \<Rightarrow> string) \<Rightarrow> string list \<Rightarrow> string list \<Rightarrow> string \<Rightarrow> nat list \<Rightarrow> int
     \<Rightarrow> movement list \<Rightarrow> movement list gen" where
  "transfer_loop isoformat cell locations device [] base_time movements = returng movements"
| "transfer_loop isoformat cell locations device (i # rest) base_time movements =
     bindg (choice locations) (\<lambda>transfer_location.
     bindg (randint 15 30) (\<lambda>m.
     transfer_loop isoformat cell locations device rest (base_time + hours 3)
       (movements @
        [\<lparr>device_id = device, owner_id = cell ! i, timestamp = isoformat base_time,
          location = \<lparr>location_id = transfer_location\<rparr>, movement_type = ''walking'',
          confidence_level = 0.9\<rparr>,
         \<lparr>device_id = device, owner_id = cell ! ((i + 1) mod length cell),
          timestamp = isoformat (base_time + minutes m),
          location = \<lparr>location_id = transfer_location\<rparr>, movement_type = ''walking'',
          confidence_level = 0.9\<rparr>])))"

definition generate_device_transfer_pattern ::
  "(int \<Rightarrow> string) \<Rightarrow> TestDataGenerator \<Rightarrow> movement list gen" where
  "generate_device_transfer_pattern isoformat g =
     bindg (choice (terrorist_cells g)) (\<lambda>cell.
     (case cell_locations g cell of
        None \<Rightarrow> throw KeyError
      | Some locations \<Rightarrow>
          bindg (choice (device_ids g)) (\<lambda>device.
          bindg now (\<lambda>t.
          bindg (randint 0 48) (\<lambda>h.
          transfer_loop isoformat cell locations device [0..<length cell] (t - hours h) [])))))"

subsection \<open>The dataset\<close>

text \<open>
  The three loops of \<^verbatim>\<open>generate_dataset\<close> append to one list. Python's \<^verbatim>\<open>sort\<close>
  is stable and compares the keys, here the timestamp strings; \<open>sort_key\<close> is the stable
  sort by a key. The phase announcements on the console are not modelled.
\<close>

fun normal_loop ::
  "(int \<Rightarrow> string) \<Rightarrow> TestDataGenerator \<Rightarrow> nat \<Rightarrow> movement list \<Rightarrow> movement list gen" where
  "normal_loop isoformat g 0 all_movements = returng all_movements"
| "normal_loop isoformat g (Suc n) all_movements =
     bindg (generate_normal_movement isoformat g) (\<lambda>m.
     normal_loop isoformat g n (all_movements @ [m]))"

fun cell_loop ::
  "(int \<Rightarrow> string) \<Rightarrow> TestDataGenerator \<Rightarrow> string list list \<Rightarrow> movement list
     \<Rightarrow> movement list gen" where
  "cell_loop isoformat g [] all_movements = returng all_movements"
| "cell_loop isoformat g (cell # cells) all_movements =
     bindg (generate_cell_movement_pattern isoformat g cell) (\<lambda>ms.
     cell_loop isoformat g cells (all_movements @ ms))"

fun transfers_loop ::
  "(int \<Rightarrow> string) \<Rightarrow> TestDataGenerator \<Rightarrow> nat \<Rightarrow> movement list \<Rightarrow> movement list gen" where
  "transfers_loop isoformat g 0 all_movements = returng all_movements"
| "transfers_loop isoformat g (Suc n) all_movements =
     bindg (generate_device_transfer_pattern isoformat g) (\<lambda>ms.
     transfers_loop isoformat g n (all_movements @ ms))"

definition generate_dataset ::
  "(int \<Rightarrow> string) \<Rightarrow> TestDataGenerator \<Rightarrow> movement list gen" where
  "generate_dataset isoformat g =
     bindg (normal_loop isoformat g 1000 []) (\<lambda>normal.
     bindg (cell_loop isoformat g (terrorist_cells g) normal) (\<lambda>with_cells.
     bindg (transfers_loop isoformat g 10 with_cells) (\<lambda>all_movements.
     returng (sort_key timestamp all_movements))))"

text \<open>
  Running a generator a number of times in sequence, and once for each element of a list,
  collecting the results: the plain description of what the loops above accumulate.
\<close>

fun replicate_gen :: "nat \<Rightarrow> 'a gen \<Rightarrow> 'a list gen" where
  "replicate_gen 0 m = returng []"
| "replicate_gen (Suc n) m =
     bindg m (\<lambda>x. bindg (replicate_gen n m) (\<lambda>xs. returng (x # xs)))"

fun map_gen :: "('a \<Rightarrow> 'b gen) \<Rightarrow> 'a list \<Rightarrow> 'b list gen" where
  "map_gen f [] = returng []"
| "map_gen f (x # xs) =
     bindg (f x) (\<lambda>y. bindg (map_gen f xs) (\<lambda>ys. returng (y # ys)))"

section \<open>The replay client\<close>

text \<open>
  \<^verbatim>\<open>send_movements\<close> talks to a server, writes to the console and sleeps. What it
  does is recorded as a trace of events next to the list of results.

  What a call raises is an exception object with its message, \<^verbatim>\<open>str(e)\<close>. The
  handler of the loop is \<^verbatim>\<open>except Exception\<close>: it catches the instances of
  \<^verbatim>\<open>Exception\<close>, and lets pass an exception that is only a \<^verbatim>\<open>BaseException\<close>
  (a \<^verbatim>\<open>KeyboardInterrupt\<close>, a \<^verbatim>\<open>SystemExit\<close>).

  The server and the library's sleep are parameters. \<open>post\<close> gives, for the number of
  requests already issued, the address and the record sent, either what
  \<^verbatim>\<open>requests.post\<close> raises or the response; a response carries its status code and
  what \<^verbatim>\<open>response.json()\<close> does: what it raises, or the parsed body. \<open>sleep\<close> gives,
  for the number of requests already issued and the delay, what \<^verbatim>\<open>time.sleep\<close>
  raises, if anything. Writing to the console is taken to succeed.
\<close>

datatype raised = Exception string | BaseException string

fun str :: "raised \<Rightarrow> string" where
  "str (Exception message) = message"
| "str (BaseException message) = message"

datatype event = Post string movement | Print string | Sleep real

record response =
  status_code :: int
  json :: "raised + string"

datatype status = Code int | Error_status

record result =
  r_movement :: movement
  r_status :: status
  r_response :: "string option"
  r_error :: "string option"

record replay =
  results :: "result list"
  events :: "event list"

definition emit :: "event \<Rightarrow> replay \<Rightarrow> replay" where
  "emit e st = st\<lparr>events := events st @ [e]\<rparr>"

definition append_result :: "result \<Rightarrow> replay \<Rightarrow> replay" where
  "append_result r st = st\<lparr>results := results st @ [r]\<rparr>"

text \<open>
  The body of the \<^verbatim>\<open>try\<close> for the \<open>i\<close>-th record (counted from 1): what is raised
  in it, if anything, and the state reached by then.
\<close>

definition try_body ::
  "(nat \<Rightarrow> string \<Rightarrow> movement \<Rightarrow> raised + response) \<Rightarrow> (nat \<Rightarrow> real \<Rightarrow> raised option)
     \<Rightarrow> string \<Rightarrow> real \<Rightarrow> nat \<Rightarrow> nat \<Rightarrow> movement \<Rightarrow> replay \<Rightarrow> raised option \<times> replay" where
  "try_body post sleep url delay total_count i movement st =
     (let st1 = emit (Post (url @ ''/api/v1/movements'') movement) st
      in case post (i - 1) (url @ ''/api/v1/movements'') movement of
           Inl e \<Rightarrow> (Some e, st1)
         | Inr resp \<Rightarrow>
             (case json resp of
                Inl e \<Rightarrow> (Some e, st1)
              | Inr body \<Rightarrow>
                  let st2 = append_result
                        \<lparr>r_movement = movement, r_status = Code (status_code resp),
                         r_response = Some body, r_error = None\<rparr> st1;
                      st3 = (if i mod 100 = 0
                             then emit (Print (''Processed '' @ decimal i @ ''/'' @
                                    decimal total_count @ '' movements'')) st2
                             else st2)
                  in case sleep (i - 1) delay of
                       Some e \<Rightarrow> (Some e, st3)
                     | None \<Rightarrow> (None, emit (Sleep delay) st3)))"

text \<open>
  One round of the loop: the body, the handler when an \<^verbatim>\<open>Exception\<close> was raised in
  it, and the exception itself, leaving the function, when it is no \<^verbatim>\<open>Exception\<close>.
\<close>

definition send_one ::
  "(nat \<Rightarrow> string \<Rightarrow> movement \<Rightarrow> raised + response) \<Rightarrow> (nat \<Rightarrow> real \<Rightarrow> raised option)
     \<Rightarrow> string \<Rightarrow> real \<Rightarrow> nat \<Rightarrow> nat \<Rightarrow> movement \<Rightarrow> replay \<Rightarrow> raised + replay" where
  "send_one post sleep url delay total_count i movement st =
     (case try_body post sleep url delay total_count i movement st of
        (None, st') \<Rightarrow> Inr st'
      | (Some (Exception message), st') \<Rightarrow>
          Inr (append_result
                 \<lparr>r_movement = movement, r_status = Error_status, r_response = None,
                  r_error = Some message\<rparr>
                 (emit (Print (''Error sending movement: '' @ message)) st'))
      | (Some (BaseException message), st') \<Rightarrow> Inl (BaseException message))"

fun send_loop ::
  "(nat \<Rightarrow> string \<Rightarrow> movement \<Rightarrow> raised + response) \<Rightarrow> (nat \<Rightarrow> real \<Rightarrow> raised option)
     \<Rightarrow> string \<Rightarrow> real \<Rightarrow> nat \<Rightarrow> nat \<Rightarrow> movement list \<Rightarrow> replay \<Rightarrow> raised + replay" where
  "send_loop post sleep url delay total_count i [] st = Inr st"
| "send_loop post sleep url delay total_count i (movement # movements) st =
     (case send_one post sleep url delay total_count i movement st of
        Inl e \<Rightarrow> Inl e
      | Inr st' \<Rightarrow> send_loop post sleep url delay total_count (Suc i) movements st')"

text \<open>
  \<^verbatim>\<open>send_movements\<close> returns the results, here with the trace, or an exception
  leaves it.
\<close>

definition send_movements ::
  "(nat \<Rightarrow> string \<Rightarrow> movement \<Rightarrow> raised + response) \<Rightarrow> (nat \<Rightarrow> real \<Rightarrow> raised option)
     \<Rightarrow> TestDataGenerator \<Rightarrow> movement list \<Rightarrow> real \<Rightarrow> raised + replay" where
  "send_movements post sleep g movements delay =
     (let total_count = length movements
      in send_loop post sleep (base_url g) delay total_count 1 movements
           (emit (Print (''Sending '' @ decimal total_count @ '' movements to API...''))
              \<lparr>results = [], events = []\<rparr>))"

section \<open>Vocabulary of the properties\<close>

text \<open>
  What a record says about who was where, the range a record of a cell pattern keeps, and
  the devices a member has in an assignment.
\<close>

definition ids :: "movement \<Rightarrow> string \<times> string \<times> string" where
  "ids r = (device_id r, owner_id r, location_id (location r))"

definition cell_record :: "movement \<Rightarrow> bool" where
  "cell_record r \<longleftrightarrow>
     0.8 \<le> confidence_level r \<and> confidence_level r \<le> 1
     \<and> (movement_type r = ''walking'' \<or> movement_type r = ''vehicle'')"

definition devices_of :: "(string \<rightharpoonup> string list) \<Rightarrow> string \<Rightarrow> string list" where
  "devices_of member_devices member =
     (case member_devices member of None \<Rightarrow> [] | Some devices \<Rightarrow> devices)"

text \<open>
  Inputs for the examples: the world whose random outcomes and clock readings are all zero,
  and a rendering of the first two instants of the time line as ISO-8601 texts.
\<close>

definition zero_world :: world where
  "zero_world = \<lparr>tape = (\<lambda>i. 0), clock = (\<lambda>i. 0)\<rparr>"

definition epoch_text :: "int \<Rightarrow> string" where
  "epoch_text t = (if t \<le> 0 then ''1970-01-01T00:00:00'' else ''1970-01-01T00:00:00.000001'')"

text \<open>
  A hand-over as the transfer pattern records it: two records of one device at one location
  of the cell, the first under the current owner and the second under the next, both
  walking with confidence 0.9.
\<close>

definition transfer_pair ::
  "string \<Rightarrow> string \<Rightarrow> string \<Rightarrow> string list \<Rightarrow> movement \<Rightarrow> movement \<Rightarrow> bool" where
  "transfer_pair device current_owner next_owner locations a b \<longleftrightarrow>
     device_id a = device \<and> device_id b = device
     \<and> owner_id a = current_owner \<and> owner_id b = next_owner
     \<and> location a = location b \<and> location_id (location a) \<in> set locations
     \<and> movement_type a = ''walking'' \<and> movement_type b = ''walking''
     \<and> confidence_level a = 0.9 \<and> confidence_level b = 0.9"

text \<open>
  A computation that does not read the clock: run in a world with another clock, it gives
  the same result and leaves that clock in place.
\<close>

definition clock_free :: "'a gen \<Rightarrow> bool" where
  "clock_free m \<longleftrightarrow>
     (\<forall>w c. m (w\<lparr>clock := c\<rparr>) = map_sum id (map_prod id (\<lambda>w'. w'\<lparr>clock := c\<rparr>)) (m w))"

text \<open>
  The replay client in the words of its description. A request fails when posting raises or
  when the body of the response does not parse; \<open>failure\<close> is what is raised then. A
  request is interrupted when what it raises is no \<^verbatim>\<open>Exception\<close>. The entry for a
  record is built from the outcome of its request, and a result entry is well formed
  when it has a numeric status and a response and no error, or the status \<^verbatim>\<open>"error"\<close>
  and an error message and no response.
\<close>

definition failure :: "raised + response \<Rightarrow> raised option" where
  "failure outcome =
     (case outcome of
        Inl e \<Rightarrow> Some e
      | Inr resp \<Rightarrow> (case json resp of Inl e \<Rightarrow> Some e | Inr body \<Rightarrow> None))"

definition interrupted :: "raised + response \<Rightarrow> bool" where
  "interrupted outcome =
     (case failure outcome of Some (BaseException message) \<Rightarrow> True | _ \<Rightarrow> False)"

definition result_entry :: "movement \<Rightarrow> raised + response \<Rightarrow> result" where
  "result_entry movement outcome =
     (case outcome of
        Inl e \<Rightarrow> \<lparr>r_movement = movement, r_status = Error_status, r_response = None,
                  r_error = Some (str e)\<rparr>
      | Inr resp \<Rightarrow>
          (case json resp of
             Inl e \<Rightarrow> \<lparr>r_movement = movement, r_status = Error_status, r_response = None,
                       r_error = Some (str e)\<rparr>
           | Inr body \<Rightarrow> \<lparr>r_movement = movement, r_status = Code (status_code resp),
                          r_response = Some body, r_error = None\<rparr>))"

definition well_formed_result :: "result \<Rightarrow> bool" where
  "well_formed_result r \<longleftrightarrow>
     (\<exists>code body. r_status r = Code code \<and> r_response r = Some body \<and> r_error r = None)
     \<or> (\<exists>message. r_status r = Error_status \<and> r_error r = Some message \<and> r_response r = None)"

text \<open>
  \<open>round_events\<close> is what one round of the loop does for the \<open>i\<close>-th record when the
  sleep returns and the request is not interrupted: the request, then after a request that
  succeeded the progress notice (when \<open>i\<close> is a multiple of 100) and the sleep, and
  after a request that failed the error notice alone.
\<close>

definition round_events ::
  "string \<Rightarrow> real \<Rightarrow> nat \<Rightarrow> nat \<Rightarrow> movement \<Rightarrow> raised + response \<Rightarrow> event list" where
  "round_events address delay total_count i movement outcome =
     Post address movement #
     (case failure outcome of
        Some e \<Rightarrow> [Print (''Error sending movement: '' @ str e)]
      | None \<Rightarrow>
          (if i mod 100 = 0
           then [Print (''Processed '' @ decimal i @ ''/'' @ decimal total_count @ '' movements'')]
           else [])
          @ [Sleep delay])"

text \<open>
  More inputs for the examples: the generator constructed in the all-zero world for the
  default address, one record, a server that accepts every request, a server that
  cannot be reached, and \<^verbatim>\<open>time.sleep\<close> as CPython has it when nothing interrupts it:
  the delay is converted to nanoseconds in 64 bits, with an OverflowError outside their
  range, and a negative delay is a ValueError.
\<close>

definition example_generator :: TestDataGenerator where
  "example_generator = fst (projr (init ''http://localhost:5001'' zero_world))"

definition example_movement :: movement where
  "example_movement =
     \<lparr>device_id = ''D00000'', owner_id = ''O00000'', timestamp = ''1970-01-01T00:00:00'',
      location = \<lparr>location_id = ''L00000''\<rparr>, movement_type = ''walking'',
      confidence_level = 0.9\<rparr>"

definition accepting_server :: "nat \<Rightarrow> string \<Rightarrow> movement \<Rightarrow> raised + response" where
  "accepting_server n address movement = Inr \<lparr>status_code = 201, json = Inr ''{}''\<rparr>"

definition unreachable_server :: "nat \<Rightarrow> string \<Rightarrow> movement \<Rightarrow> raised + response" where
  "unreachable_server n address movement = Inl (Exception ''Connection refused'')"

definition time_sleep :: "nat \<Rightarrow> real \<Rightarrow> raised option" where
  "time_sleep n secs =
     (if secs * 10 ^ 9 < - (2 ^ 63) \<or> 2 ^ 63 \<le> secs * 10 ^ 9
      then Some (Exception ''timestamp too large to convert to C _PyTime_t'')
      else if secs < 0 then Some (Exception ''sleep length must be non-negative'')
      else None)"

section \<open>Properties of the environment\<close>

subsection \<open>Sequencing\<close>

lemma bindg_Inr_iff:
  "bindg m f w = Inr r \<longleftrightarrow> (\<exists>x w'. m w = Inr (x, w') \<and> f x w' = Inr r)"
  by (auto simp: bindg_def split: sum.splits)

lemma bindg_Inl_iff:
  "bindg m f w = Inl e \<longleftrightarrow> m w = Inl e \<or> (\<exists>x w'. m w = Inr (x, w') \<and> f x w' = Inl e)"
  by (auto simp: bindg_def split: sum.splits)

lemma bindg_step: "m w = Inr (x, w') \<Longrightarrow> bindg m f w = f x w'"
  by (simp add: bindg_def)

lemma bindg_fail: "m w = Inl e \<Longrightarrow> bindg m f w = Inl e"
  by (simp add: bindg_def)

lemma bindg_returng_left: "bindg (returng x) f = f x"
  by (rule ext) (simp add: bindg_def returng_def)

lemma bindg_returng_right: "bindg m returng = m"
  by (rule ext) (simp add: bindg_def returng_def split: sum.splits)

lemma bindg_assoc: "bindg (bindg m f) h = bindg m (\<lambda>x. bindg (f x) h)"
  by (rule ext) (simp add: bindg_def split: sum.splits)

lemma randbelow_eq: "randbelow n w = Inr (tape w 0 mod n, advance w)"
  by (simp add: randbelow_def)

lemma choice_eq:
  "seq \<noteq> [] \<Longrightarrow> choice seq w = Inr (seq ! (tape w 0 mod length seq), advance w)"
  by (simp add: choice_def bindg_def randbelow_def returng_def)

lemma choice_mem:
  "x \<in> set seq" if "choice seq w = Inr (x, w')"
proof (cases "seq = []")
  case True
  then show ?thesis using that by (simp add: choice_def throw_def)
next
  case False
  then have "tape w 0 mod length seq < length seq" by simp
  then have "seq ! (tape w 0 mod length seq) \<in> set seq" by (rule nth_mem)
  with that choice_eq [OF False, of w] show ?thesis by simp
qed

lemma randint_eq:
  "a \<le> b \<Longrightarrow> randint a b w = Inr (a + tape w 0 mod (b - a + 1), advance w)"
  by (simp add: randint_def bindg_def randbelow_def returng_def)

lemma randint_range:
  assumes "randint a b w = Inr (k, w')" shows "a \<le> k \<and> k \<le> b"
proof (cases "b < a")
  case True
  with assms show ?thesis by (simp add: randint_def throw_def)
next
  case False
  then have "a \<le> b" by simp
  from assms randint_eq [OF this, of w] have k: "k = a + tape w 0 mod (b - a + 1)" by simp
  have "tape w 0 mod (b - a + 1) < b - a + 1" by simp
  with k \<open>a \<le> b\<close> show ?thesis by linarith
qed

lemma pool_step_set:
  assumes "distinct pool" "j < length pool"
  shows "set (butlast (pool[j := last pool])) = set pool - {pool ! j}
         \<and> distinct (butlast (pool[j := last pool]))"
proof (cases pool rule: rev_cases)
  case Nil
  with assms show ?thesis by simp
next
  case (snoc xs l)
  show ?thesis
  proof (cases "j = length xs")
    case True
    with snoc assms show ?thesis by auto
  next
    case False
    with snoc assms have j: "j < length xs" by simp
    have d: "distinct xs" "l \<notin> set xs" using snoc assms by auto
    have e: "butlast (pool[j := last pool]) = xs[j := l]"
      using snoc j by (simp add: list_update_append)
    have n: "pool ! j = xs ! j" using snoc j by (simp add: nth_append)
    have m: "xs ! j \<in> set xs" using j by simp
    have "set (xs[j := l]) = insert l (set xs - {xs ! j})"
      using d j by (simp add: set_update_distinct)
    moreover have "distinct (xs[j := l])"
      using d j by (simp add: distinct_list_update)
    ultimately show ?thesis using e n snoc d m by auto
  qed
qed

lemma pool_step_subset:
  "set (butlast (pool[j := last pool])) \<subseteq> set pool"
proof (cases pool rule: rev_cases)
  case Nil
  then show ?thesis by simp
next
  case (snoc xs l)
  have "set (pool[j := last pool]) \<subseteq> insert (last pool) (set pool)"
    by (rule set_update_subset_insert)
  moreover have "set (butlast (pool[j := last pool])) \<subseteq> set (pool[j := last pool])"
    by (auto dest: in_set_butlastD)
  ultimately show ?thesis using snoc by auto
qed

lemma sample_pool_ok:
  "k \<le> length pool \<Longrightarrow>
   \<exists>xs w'. sample_pool pool k w = Inr (xs, w') \<and> length xs = k \<and> set xs \<subseteq> set pool
     \<and> (distinct pool \<longrightarrow> distinct xs)"
proof (induction k arbitrary: pool w)
  case 0
  then show ?case by (simp add: returng_def)
next
  case (Suc k)
  define j where "j = tape w 0 mod length pool"
  define pool' where "pool' = butlast (pool[j := last pool])"
  from Suc.prems have pos: "0 < length pool" by linarith
  then have j: "j < length pool" by (simp add: j_def)
  have "k \<le> length pool'" using Suc.prems by (simp add: pool'_def)
  from Suc.IH [OF this, of "advance w"] obtain xs w'
    where xs: "sample_pool pool' k (advance w) = Inr (xs, w')" "length xs = k"
      "set xs \<subseteq> set pool'" "distinct pool' \<longrightarrow> distinct xs" by blast
  have run: "sample_pool pool (Suc k) w = Inr (pool ! j # xs, w')"
    using xs(1) by (simp add: bindg_def randbelow_def returng_def j_def pool'_def)
  have sub: "set pool' \<subseteq> set pool" unfolding pool'_def by (rule pool_step_subset)
  have "distinct (pool ! j # xs)" if "distinct pool"
    using pool_step_set [OF that j] xs(3,4) by (auto simp: pool'_def)
  with run xs(2,3) sub j show ?case by auto
qed

lemma sample_ok:
  "k \<le> length population \<Longrightarrow>
   \<exists>xs w'. sample population k w = Inr (xs, w') \<and> length xs = k \<and> set xs \<subseteq> set population
     \<and> (distinct population \<longrightarrow> distinct xs)"
  using sample_pool_ok [of k population w] by (simp add: sample_def)

lemma sample_props:
  assumes "sample population k w = Inr (xs, w')"
  shows "length xs = k \<and> set xs \<subseteq> set population \<and> (distinct population \<longrightarrow> distinct xs)"
proof (cases "length population < k")
  case True
  with assms show ?thesis by (simp add: sample_def throw_def)
next
  case False
  then have "k \<le> length population" by simp
  from sample_ok [OF this, of w] assms show ?thesis by auto
qed

subsection \<open>Random numbers, rounding and the pools\<close>

lemma random_eq: "random w = Inr (real (tape w 0 mod 2 ^ 53) / 2 ^ 53, advance w)"
  by (simp add: random_def)

lemma random_unit: "0 \<le> real (n mod 2 ^ 53) / 2 ^ 53 \<and> real (n mod 2 ^ 53) / 2 ^ 53 < 1"
proof -
  have "n mod 2 ^ 53 < (2 ^ 53 :: nat)" by simp
  then have "real (n mod 2 ^ 53) < 2 ^ 53"
    by (metis of_nat_less_iff of_nat_numeral of_nat_power)
  then show ?thesis by simp
qed

lemma uniform_range:
  assumes "a \<le> b"
  shows "\<exists>u. uniform a b w = Inr (u, advance w) \<and> a \<le> u \<and> u \<le> b"
proof -
  define r where "r = real (tape w 0 mod 2 ^ 53) / 2 ^ 53"
  have r: "0 \<le> r" "r < 1" using random_unit [of "tape w 0"] by (simp_all add: r_def)
  have run: "uniform a b w = Inr (a + (b - a) * r, advance w)"
    by (simp add: uniform_def bindg_def random_def returng_def r_def)
  have "0 \<le> (b - a) * r" using assms r by simp
  moreover have "(b - a) * r \<le> (b - a) * 1"
    using assms r by (intro mult_left_mono) simp_all
  ultimately show ?thesis using run by auto
qed

lemma round2_lower:
  assumes "of_int k / 100 \<le> x" shows "of_int k / 100 \<le> round2 x"
proof -
  have "of_int k \<le> x * 100" using assms by simp
  then have "k \<le> \<lfloor>x * 100\<rfloor>" by (simp add: le_floor_iff)
  then have "(of_int k :: real) \<le> of_int \<lfloor>x * 100\<rfloor>" by simp
  then show ?thesis by (simp add: round2_def Let_def divide_right_mono)
qed

lemma round2_upper:
  assumes "x \<le> of_int k / 100" shows "round2 x \<le> of_int k / 100"
proof -
  have le: "x * 100 \<le> of_int k" using assms by simp
  then have fl: "\<lfloor>x * 100\<rfloor> \<le> k" by (simp add: floor_le_iff)
  show ?thesis
  proof (cases "x * 100 - of_int \<lfloor>x * 100\<rfloor> < 1 / 2")
    case True
    then show ?thesis using fl by (simp add: round2_def Let_def divide_right_mono)
  next
    case False
    then have "of_int \<lfloor>x * 100\<rfloor> < x * 100" by linarith
    with le have "(of_int \<lfloor>x * 100\<rfloor> :: real) < of_int k" by linarith
    then have "\<lfloor>x * 100\<rfloor> < k" by simp
    then have "\<lfloor>x * 100\<rfloor> + 1 \<le> k" by simp
    then have "(of_int (\<lfloor>x * 100\<rfloor> + 1) :: real) \<le> of_int k" by (simp only: of_int_le_iff)
    moreover have "(of_int \<lfloor>x * 100\<rfloor> :: real) \<le> of_int k" using fl by simp
    ultimately show ?thesis by (simp add: round2_def Let_def divide_right_mono)
  qed
qed

lemma round2_range_normal: "0.7 \<le> u \<Longrightarrow> u \<le> 1 \<Longrightarrow> 0.7 \<le> round2 u \<and> round2 u \<le> 1"
  using round2_lower [of 70 u] round2_upper [of u 100] by simp

lemma round2_range_cell: "0.8 \<le> u \<Longrightarrow> u \<le> 1 \<Longrightarrow> 0.8 \<le> round2 u \<and> round2 u \<le> 1"
  using round2_lower [of 80 u] round2_upper [of u 100] by simp

lemma now_eq: "now w = Inr (clock w 0, w\<lparr>clock := (\<lambda>i. clock w (Suc i))\<rparr>)"
  by (simp add: now_def)

lemma owners_distinct: "distinct (map (\<lambda>i. CHR ''O'' # format_05d i) [0..<30])"
  by code_simp

lemma devices_distinct: "distinct (map (\<lambda>i. CHR ''D'' # format_05d i) [0..<50])"
  by code_simp

lemma locations_distinct: "distinct (map (\<lambda>i. CHR ''L'' # format_05d i) [0..<20])"
  by code_simp

subsection \<open>The constructor\<close>

lemma sample_cell_locations_ok:
  "5 \<le> length pool \<Longrightarrow>
   \<exists>d' w'. sample_cell_locations pool cells d w = Inr (d', w') \<and> dom d' = dom d \<union> set cells
     \<and> (\<forall>c locs. d' c = Some locs \<longrightarrow>
           d c = Some locs \<or>
           (c \<in> set cells \<and> length locs = 5 \<and> set locs \<subseteq> set pool
            \<and> (distinct pool \<longrightarrow> distinct locs)))"
proof (induction cells arbitrary: d w)
  case Nil
  then show ?case by (simp add: returng_def)
next
  case (Cons cell cells)
  define good where
    "good ls \<longleftrightarrow> length ls = 5 \<and> set ls \<subseteq> set pool \<and> (distinct pool \<longrightarrow> distinct ls)" for ls
  from sample_ok [OF Cons.prems, of w] obtain locs w1
    where s: "sample pool 5 w = Inr (locs, w1)" and g: "good locs"
    unfolding good_def by blast
  from Cons.IH [OF Cons.prems, of "d(cell \<mapsto> locs)" w1] obtain d' w'
    where r: "sample_cell_locations pool cells (d(cell \<mapsto> locs)) w1 = Inr (d', w')"
      and dm: "dom d' = dom (d(cell \<mapsto> locs)) \<union> set cells"
      and ih: "\<And>c ls. d' c = Some ls \<Longrightarrow>
                 (d(cell \<mapsto> locs)) c = Some ls \<or> (c \<in> set cells \<and> good ls)"
    unfolding good_def by blast
  have run: "sample_cell_locations pool (cell # cells) d w = Inr (d', w')"
    using s r by (simp add: bindg_step)
  have "d c = Some ls \<or> (c \<in> set (cell # cells) \<and> good ls)" if "d' c = Some ls" for c ls
  proof (cases "c = cell")
    case True
    from ih [OF that] True g show ?thesis by auto
  next
    case False
    from ih [OF that] False show ?thesis by auto
  qed
  moreover have "dom d' = dom d \<union> set (cell # cells)" using dm by auto
  ultimately show ?case using run unfolding good_def by blast
qed

lemma init_ok:
  "\<exists>g w'. init url w = Inr (g, w') \<and> base_url g = url
     \<and> device_ids g = map (\<lambda>i. CHR ''D'' # format_05d i) [0..<50]
     \<and> owner_ids g = map (\<lambda>i. CHR ''O'' # format_05d i) [0..<30]
     \<and> location_ids g = map (\<lambda>i. CHR ''L'' # format_05d i) [0..<20]
     \<and> terrorist_cells g = map (\<lambda>i. take 5 (drop i (owner_ids g))) [0, 5, 10]
     \<and> dom (cell_locations g) = set (terrorist_cells g)
     \<and> (\<forall>c locs. cell_locations g c = Some locs \<longrightarrow>
           length locs = 5 \<and> distinct locs \<and> set locs \<subseteq> set (location_ids g))"
proof -
  define locs where "locs = map (\<lambda>i. CHR ''L'' # format_05d i) [0..<20]"
  define owners where "owners = map (\<lambda>i. CHR ''O'' # format_05d i) [0..<30]"
  define cells where "cells = map (\<lambda>i. take 5 (drop i owners)) [0, 5, 10]"
  have len: "5 \<le> length locs" by (simp add: locs_def)
  have dist: "distinct locs" unfolding locs_def by (rule locations_distinct)
  from sample_cell_locations_ok [OF len, of cells Map.empty w] dist obtain d w'
    where d: "sample_cell_locations locs cells Map.empty w = Inr (d, w')"
      "dom d = set cells"
      "\<forall>c ls. d c = Some ls \<longrightarrow> length ls = 5 \<and> set ls \<subseteq> set locs \<and> distinct ls"
    by auto
  have "init url w =
          Inr (\<lparr>base_url = url, device_ids = map (\<lambda>i. CHR ''D'' # format_05d i) [0..<50],
                owner_ids = owners, location_ids = locs, terrorist_cells = cells,
                cell_locations = d\<rparr>, w')"
    using d(1) unfolding init_def Let_def locs_def [symmetric] owners_def [symmetric]
       cells_def [symmetric] by (simp add: bindg_step returng_def)
  with d(2,3) show ?thesis by (auto simp: locs_def owners_def cells_def)
qed

lemma init_facts:
  assumes "init url w = Inr (g, w')"
  shows "base_url g = url"
    and "device_ids g = map (\<lambda>i. CHR ''D'' # format_05d i) [0..<50]"
    and "owner_ids g = map (\<lambda>i. CHR ''O'' # format_05d i) [0..<30]"
    and "location_ids g = map (\<lambda>i. CHR ''L'' # format_05d i) [0..<20]"
    and "terrorist_cells g = map (\<lambda>i. take 5 (drop i (owner_ids g))) [0, 5, 10]"
    and "dom (cell_locations g) = set (terrorist_cells g)"
    and "cell_locations g c = Some locs \<Longrightarrow>
           length locs = 5 \<and> distinct locs \<and> set locs \<subseteq> set (location_ids g)"
proof -
  from init_ok [of url w] obtain g0 w0 where
    r: "init url w = Inr (g0, w0)" and a: "base_url g0 = url"
    and b: "device_ids g0 = map (\<lambda>i. CHR ''D'' # format_05d i) [0..<50]"
    and c: "owner_ids g0 = map (\<lambda>i. CHR ''O'' # format_05d i) [0..<30]"
    and d: "location_ids g0 = map (\<lambda>i. CHR ''L'' # format_05d i) [0..<20]"
    and e: "terrorist_cells g0 = map (\<lambda>i. take 5 (drop i (owner_ids g0))) [0, 5, 10]"
    and f: "dom (cell_locations g0) = set (terrorist_cells g0)"
    and h: "\<And>c locs. cell_locations g0 c = Some locs \<Longrightarrow>
           length locs = 5 \<and> distinct locs \<and> set locs \<subseteq> set (location_ids g0)"
    by blast
  from r assms have eq: "g0 = g" by simp
  show "base_url g = url" using a eq by simp
  show "device_ids g = map (\<lambda>i. CHR ''D'' # format_05d i) [0..<50]" using b eq by simp
  show "owner_ids g = map (\<lambda>i. CHR ''O'' # format_05d i) [0..<30]" using c eq by simp
  show "location_ids g = map (\<lambda>i. CHR ''L'' # format_05d i) [0..<20]" using d eq by simp
  show "terrorist_cells g = map (\<lambda>i. take 5 (drop i (owner_ids g))) [0, 5, 10]"
    using e eq by simp
  show "dom (cell_locations g) = set (terrorist_cells g)" using f eq by simp
  show "length locs = 5 \<and> distinct locs \<and> set locs \<subseteq> set (location_ids g)"
    if "cell_locations g c = Some locs" using h [of c locs] that eq by simp
qed

lemma init_cells:
  assumes "init url w = Inr (g, w')"
  shows "length (terrorist_cells g) = 3"
    and "cell \<in> set (terrorist_cells g) \<Longrightarrow> length cell = 5 \<and> distinct cell"
    and "cell \<in> set (terrorist_cells g) \<Longrightarrow>
           \<exists>locs. cell_locations g cell = Some locs \<and> length locs = 5 \<and> distinct locs
             \<and> set locs \<subseteq> set (location_ids g)"
proof -
  note f = init_facts [OF assms]
  show "length (terrorist_cells g) = 3" by (simp add: f(5))
  have d: "distinct (owner_ids g)" unfolding f(3) by (rule owners_distinct)
  have l: "length (owner_ids g) = 30" by (simp add: f(3))
  show "length cell = 5 \<and> distinct cell" if "cell \<in> set (terrorist_cells g)"
    using that d l by (auto simp: f(5))
  show "\<exists>locs. cell_locations g cell = Some locs \<and> length locs = 5 \<and> distinct locs
             \<and> set locs \<subseteq> set (location_ids g)" if "cell \<in> set (terrorist_cells g)"
  proof -
    from that f(6) have "cell \<in> dom (cell_locations g)" by simp
    then obtain locs where "cell_locations g cell = Some locs" by auto
    with f(7) [OF this] show ?thesis by simp
  qed
qed

section \<open>Properties of the generators\<close>

subsection \<open>The cell pattern\<close>

lemma randint_ok:
  assumes "a \<le> b"
  shows "\<exists>k w'. randint a b w = Inr (k, w') \<and> a \<le> k \<and> k \<le> b"
proof -
  note e = randint_eq [OF assms, of w]
  from randint_range [OF e] e show ?thesis by (intro exI conjI) simp_all
qed

lemma choice_ok:
  assumes "seq \<noteq> []"
  shows "\<exists>x w'. choice seq w = Inr (x, w') \<and> x \<in> set seq"
proof -
  note e = choice_eq [OF assms, of w]
  from choice_mem [OF e] e show ?thesis by (intro exI conjI) simp_all
qed

lemma uniform_ok: "a \<le> b \<Longrightarrow> \<exists>u w'. uniform a b w = Inr (u, w') \<and> a \<le> u \<and> u \<le> b"
  using uniform_range [of a b w] by blast

lemma walking_or_vehicle:
  "\<exists>mt w'. choice [''walking'', ''vehicle''] w = Inr (mt, w')
     \<and> (mt = ''walking'' \<or> mt = ''vehicle'')"
  using choice_ok [of "[''walking'', ''vehicle'']" w] by auto

lemma cell_confidence:
  "\<exists>u w'. uniform 0.8 1.0 w = Inr (u, w') \<and> 0.8 \<le> round2 u \<and> round2 u \<le> 1"
proof -
  from uniform_ok [of "0.8" "1.0" w] obtain u w'
    where "uniform 0.8 1.0 w = Inr (u, w')" "0.8 \<le> u" "u \<le> 1" by auto
  with round2_range_cell [of u] show ?thesis by blast
qed

lemma device_loop_ok:
  "\<exists>new w'. device_loop isoformat base cur nxt member devices acc w = Inr (acc @ new, w')
     \<and> map ids new = concat (map (\<lambda>d. [(d, member, cur), (d, member, nxt)]) devices)
     \<and> (\<forall>r\<in>set new. cell_record r)"
proof (induction devices arbitrary: acc w)
  case Nil
  then show ?case by (simp add: returng_def)
next
  case (Cons device devices)
  from randint_ok [of 0 30 w] obtain m1 w1 where a: "randint 0 30 w = Inr (m1, w1)" by auto
  from walking_or_vehicle [of w1] obtain mt1 w2
    where b: "choice [''walking'', ''vehicle''] w1 = Inr (mt1, w2)"
      "mt1 = ''walking'' \<or> mt1 = ''vehicle''" by blast
  from cell_confidence [of w2] obtain u1 w3
    where c: "uniform 0.8 1.0 w2 = Inr (u1, w3)" "0.8 \<le> round2 u1" "round2 u1 \<le> 1" by blast
  from randint_ok [of 45 90 w3] obtain m2 w4 where d: "randint 45 90 w3 = Inr (m2, w4)" by auto
  from walking_or_vehicle [of w4] obtain mt2 w5
    where e: "choice [''walking'', ''vehicle''] w4 = Inr (mt2, w5)"
      "mt2 = ''walking'' \<or> mt2 = ''vehicle''" by blast
  from cell_confidence [of w5] obtain u2 w6
    where f: "uniform 0.8 1.0 w5 = Inr (u2, w6)" "0.8 \<le> round2 u2" "round2 u2 \<le> 1" by blast
  define r1 where "r1 = \<lparr>device_id = device, owner_id = member,
     timestamp = isoformat (base + minutes m1), location = \<lparr>location_id = cur\<rparr>,
     movement_type = mt1, confidence_level = round2 u1\<rparr>"
  define r2 where "r2 = \<lparr>device_id = device, owner_id = member,
     timestamp = isoformat (base + minutes m2), location = \<lparr>location_id = nxt\<rparr>,
     movement_type = mt2, confidence_level = round2 u2\<rparr>"
  have step: "device_loop isoformat base cur nxt member (device # devices) acc w =
      device_loop isoformat base cur nxt member devices (acc @ [r1, r2]) w6"
    using a b(1) c(1) d e(1) f(1) by (simp add: bindg_step r1_def r2_def)
  from Cons.IH [of "acc @ [r1, r2]" w6] obtain new w'
    where ih: "device_loop isoformat base cur nxt member devices (acc @ [r1, r2]) w6 =
        Inr ((acc @ [r1, r2]) @ new, w')"
      "map ids new = concat (map (\<lambda>d. [(d, member, cur), (d, member, nxt)]) devices)"
      "\<forall>r\<in>set new. cell_record r" by blast
  have "device_loop isoformat base cur nxt member (device # devices) acc w =
      Inr (acc @ (r1 # r2 # new), w')" using step ih(1) by simp
  moreover have "map ids (r1 # r2 # new) =
      concat (map (\<lambda>d. [(d, member, cur), (d, member, nxt)]) (device # devices))"
    using ih(2) by (simp add: ids_def r1_def r2_def)
  moreover have "\<forall>r\<in>set (r1 # r2 # new). cell_record r"
    using ih(3) b(2) c(2,3) e(2) f(2,3) by (auto simp: cell_record_def r1_def r2_def)
  ultimately show ?case by (intro exI conjI)
qed

lemma member_loop_ok:
  assumes "\<forall>m\<in>set members. member_devices m \<noteq> None"
  shows "\<exists>new w'. member_loop isoformat base cur nxt member_devices members acc w
                     = Inr (acc @ new, w')
     \<and> map ids new = concat (map (\<lambda>m. concat (map (\<lambda>d. [(d, m, cur), (d, m, nxt)])
                                 (devices_of member_devices m))) members)
     \<and> (\<forall>r\<in>set new. cell_record r)"
  using assms
proof (induction members arbitrary: acc w)
  case Nil
  then show ?case by (simp add: returng_def)
next
  case (Cons member members)
  then obtain devices where dv: "member_devices member = Some devices" by auto
  from device_loop_ok [of isoformat base cur nxt member devices acc w] obtain new1 w1
    where a: "device_loop isoformat base cur nxt member devices acc w = Inr (acc @ new1, w1)"
      "map ids new1 = concat (map (\<lambda>d. [(d, member, cur), (d, member, nxt)]) devices)"
      "\<forall>r\<in>set new1. cell_record r" by blast
  from Cons.prems have "\<forall>m\<in>set members. member_devices m \<noteq> None" by simp
  from Cons.IH [OF this, of "acc @ new1" w1] obtain new2 w2
    where b: "member_loop isoformat base cur nxt member_devices members (acc @ new1) w1
               = Inr ((acc @ new1) @ new2, w2)"
      "map ids new2 = concat (map (\<lambda>m. concat (map (\<lambda>d. [(d, m, cur), (d, m, nxt)])
                                 (devices_of member_devices m))) members)"
      "\<forall>r\<in>set new2. cell_record r" by blast
  have "member_loop isoformat base cur nxt member_devices (member # members) acc w
          = Inr (acc @ (new1 @ new2), w2)"
    using dv a(1) b(1) by (simp add: bindg_step)
  moreover have "map ids (new1 @ new2) =
      concat (map (\<lambda>m. concat (map (\<lambda>d. [(d, m, cur), (d, m, nxt)])
                                 (devices_of member_devices m))) (member # members))"
    using a(2) b(2) dv by (simp add: devices_of_def)
  moreover have "\<forall>r\<in>set (new1 @ new2). cell_record r" using a(3) b(3) by auto
  ultimately show ?case by (intro exI conjI)
qed

lemma location_loop_ok:
  assumes "\<forall>m\<in>set members. member_devices m \<noteq> None"
  shows "\<exists>new w'. location_loop isoformat locations members member_devices idx base acc w
                     = Inr (acc @ new, w')
     \<and> map ids new =
         concat (map (\<lambda>i. concat (map (\<lambda>m. concat (map (\<lambda>d.
                   [(d, m, locations ! i), (d, m, locations ! ((i + 1) mod length locations))])
                 (devices_of member_devices m))) members)) idx)
     \<and> (\<forall>r\<in>set new. cell_record r)"
proof (induction idx arbitrary: base acc w)
  case Nil
  then show ?case by (simp add: returng_def)
next
  case (Cons i idx)
  from member_loop_ok [OF assms, of isoformat base "locations ! i"
      "locations ! ((i + 1) mod length locations)" acc w] obtain new1 w1
    where a: "member_loop isoformat base (locations ! i)
                (locations ! ((i + 1) mod length locations)) member_devices members acc w
              = Inr (acc @ new1, w1)"
      "map ids new1 = concat (map (\<lambda>m. concat (map (\<lambda>d.
           [(d, m, locations ! i), (d, m, locations ! ((i + 1) mod length locations))])
           (devices_of member_devices m))) members)"
      "\<forall>r\<in>set new1. cell_record r" by blast
  from Cons.IH [of "base + hours 2" "acc @ new1" w1] obtain new2 w2
    where b: "location_loop isoformat locations members member_devices idx (base + hours 2)
                (acc @ new1) w1 = Inr ((acc @ new1) @ new2, w2)"
      "map ids new2 =
         concat (map (\<lambda>i. concat (map (\<lambda>m. concat (map (\<lambda>d.
                   [(d, m, locations ! i), (d, m, locations ! ((i + 1) mod length locations))])
                 (devices_of member_devices m))) members)) idx)"
      "\<forall>r\<in>set new2. cell_record r" by blast
  have "location_loop isoformat locations members member_devices (i # idx) base acc w
          = Inr (acc @ (new1 @ new2), w2)"
    using a(1) b(1) by (simp add: bindg_step)
  moreover have "map ids (new1 @ new2) =
         concat (map (\<lambda>i. concat (map (\<lambda>m. concat (map (\<lambda>d.
                   [(d, m, locations ! i), (d, m, locations ! ((i + 1) mod length locations))])
                 (devices_of member_devices m))) members)) (i # idx))"
    using a(2) b(2) by simp
  moreover have "\<forall>r\<in>set (new1 @ new2). cell_record r" using a(3) b(3) by auto
  ultimately show ?case by (intro exI conjI)
qed

lemma assign_devices_dom:
  "assign_devices pool members d w = Inr (md, w') \<Longrightarrow> dom md = dom d \<union> set members"
proof (induction members arbitrary: d w)
  case Nil
  then show ?case by (simp add: returng_def)
next
  case (Cons member members)
  from Cons.prems obtain k w1 devs w2
    where "randint 1 3 w = Inr (k, w1)" "sample pool k w1 = Inr (devs, w2)"
      and r: "assign_devices pool members (d(member \<mapsto> devs)) w2 = Inr (md, w')"
    by (auto simp: bindg_Inr_iff)
  from Cons.IH [OF r] show ?case by auto
qed

lemma assign_devices_ok:
  "3 \<le> length pool \<Longrightarrow>
   \<exists>md w'. assign_devices pool members d w = Inr (md, w')
     \<and> (\<forall>m devs. md m = Some devs \<longrightarrow>
           d m = Some devs \<or>
           (m \<in> set members \<and> 1 \<le> length devs \<and> length devs \<le> 3 \<and> set devs \<subseteq> set pool
            \<and> (distinct pool \<longrightarrow> distinct devs)))"
proof (induction members arbitrary: d w)
  case Nil
  then show ?case by (simp add: returng_def)
next
  case (Cons member members)
  define good where
    "good ls \<longleftrightarrow> 1 \<le> length ls \<and> length ls \<le> 3 \<and> set ls \<subseteq> set pool
       \<and> (distinct pool \<longrightarrow> distinct ls)" for ls
  from randint_ok [of 1 3 w] obtain k w1
    where k: "randint 1 3 w = Inr (k, w1)" "1 \<le> k" "k \<le> 3" by auto
  with Cons.prems have "k \<le> length pool" by simp
  from sample_ok [OF this, of w1] k(2,3) obtain devs w2
    where s: "sample pool k w1 = Inr (devs, w2)" and g: "good devs"
    unfolding good_def by auto
  from Cons.IH [OF Cons.prems, of "d(member \<mapsto> devs)" w2] obtain md w'
    where r: "assign_devices pool members (d(member \<mapsto> devs)) w2 = Inr (md, w')"
      and ih: "\<And>m ls. md m = Some ls \<Longrightarrow>
                 (d(member \<mapsto> devs)) m = Some ls \<or> (m \<in> set members \<and> good ls)"
    unfolding good_def by blast
  have run: "assign_devices pool (member # members) d w = Inr (md, w')"
    using k(1) s r by (simp add: bindg_step)
  have "d m = Some ls \<or> (m \<in> set (member # members) \<and> good ls)" if "md m = Some ls" for m ls
  proof (cases "m = member")
    case True
    from ih [OF that] True g show ?thesis by auto
  next
    case False
    from ih [OF that] False show ?thesis by auto
  qed
  then show ?case using run unfolding good_def by blast
qed

lemma cell_pattern_setup_KeyError:
  "cell_locations g cell = None \<Longrightarrow> cell_pattern_setup g cell w = Inl KeyError"
  by (simp add: cell_pattern_setup_def throw_def)

lemma cell_pattern_setup_Inr:
  assumes "cell_pattern_setup g cell w = Inr ((locations, base, md), w')"
  shows "cell_locations g cell = Some locations \<and> dom md = set cell"
proof (cases "cell_locations g cell")
  case None
  with assms show ?thesis by (simp add: cell_pattern_setup_def throw_def)
next
  case (Some locs)
  with assms obtain t w1 h w2 where
    "assign_devices (device_ids g) cell Map.empty w2 = Inr (md, w')" "locations = locs"
    by (auto simp: cell_pattern_setup_def bindg_Inr_iff returng_def)
  with assign_devices_dom [OF this(1)] Some show ?thesis by simp
qed

lemma cell_pattern_setup_ok:
  assumes "cell_locations g cell = Some locations" and "3 \<le> length (device_ids g)"
  shows "\<exists>base md w'. cell_pattern_setup g cell w = Inr ((locations, base, md), w')
     \<and> (\<forall>m\<in>set cell. 1 \<le> length (devices_of md m) \<and> length (devices_of md m) \<le> 3
           \<and> set (devices_of md m) \<subseteq> set (device_ids g)
           \<and> (distinct (device_ids g) \<longrightarrow> distinct (devices_of md m)))"
proof -
  from randint_ok [of 0 48 "snd (projr (now w))"] obtain h w2
    where h: "randint 0 48 (w\<lparr>clock := (\<lambda>i. clock w (Suc i))\<rparr>) = Inr (h, w2)"
    by (auto simp: now_eq)
  from assign_devices_ok [OF assms(2), of cell Map.empty w2] obtain md w'
    where a: "assign_devices (device_ids g) cell Map.empty w2 = Inr (md, w')"
      and p: "\<And>m devs. md m = Some devs \<Longrightarrow>
            1 \<le> length devs \<and> length devs \<le> 3 \<and> set devs \<subseteq> set (device_ids g)
            \<and> (distinct (device_ids g) \<longrightarrow> distinct devs)" by auto
  have run: "cell_pattern_setup g cell w = Inr ((locations, clock w 0 - hours h, md), w')"
    using assms(1) h a by (simp add: cell_pattern_setup_def bindg_step now_eq returng_def)
  from assign_devices_dom [OF a] have dm: "dom md = set cell" by simp
  have "1 \<le> length (devices_of md m) \<and> length (devices_of md m) \<le> 3
           \<and> set (devices_of md m) \<subseteq> set (device_ids g)
           \<and> (distinct (device_ids g) \<longrightarrow> distinct (devices_of md m))" if "m \<in> set cell" for m
  proof -
    from that dm obtain devs where "md m = Some devs" by auto
    with p [OF this] show ?thesis by (simp add: devices_of_def)
  qed
  with run show ?thesis by blast
qed

text \<open>What the records of a pattern say, given the setup.\<close>

lemma cell_pattern_records:
  assumes "cell_pattern_setup g cell w = Inr ((locations, base, md), ws)"
  shows "\<exists>movements w'. generate_cell_movement_pattern isoformat g cell w = Inr (movements, w')
     \<and> map ids movements =
         concat (map (\<lambda>i. concat (map (\<lambda>m. concat (map (\<lambda>d.
                   [(d, m, locations ! i), (d, m, locations ! ((i + 1) mod length locations))])
                 (devices_of md m))) cell)) [0..<length locations])
     \<and> (\<forall>r\<in>set movements. cell_record r)"
proof -
  from cell_pattern_setup_Inr [OF assms] have "\<forall>m\<in>set cell. md m \<noteq> None" by auto
  from location_loop_ok [OF this, of isoformat locations "[0..<length locations]" base "[]" ws]
  obtain new w' where
    l: "location_loop isoformat locations cell md [0..<length locations] base [] ws
          = Inr ([] @ new, w')"
    and i: "map ids new =
         concat (map (\<lambda>i. concat (map (\<lambda>m. concat (map (\<lambda>d.
                   [(d, m, locations ! i), (d, m, locations ! ((i + 1) mod length locations))])
                 (devices_of md m))) cell)) [0..<length locations])"
    and c: "\<forall>r\<in>set new. cell_record r" by blast
  have "generate_cell_movement_pattern isoformat g cell w = Inr (new, w')"
    using assms l by (simp add: generate_cell_movement_pattern_def bindg_step)
  with i c show ?thesis by (intro exI conjI)
qed

lemma length_concat_const:
  "(\<And>x. x \<in> set xs \<Longrightarrow> length (f x) = c) \<Longrightarrow> length (concat (map f xs)) = length xs * c"
  by (induction xs) simp_all

lemma length_member_records:
  "length (concat (map (\<lambda>m. concat (map (\<lambda>d. [(d, m, a), (d, m, b)]) (ds m))) ms))
     = 2 * sum_list (map (\<lambda>m. length (ds m)) ms)"
proof (induction ms)
  case Nil
  then show ?case by simp
next
  case (Cons m ms)
  have "length (concat (map (\<lambda>d. [(d, m, a), (d, m, b)]) (ds m))) = length (ds m) * 2"
    by (rule length_concat_const) simp
  with Cons show ?case by simp
qed

lemma cell_records_length:
  "length (concat (map (\<lambda>i. concat (map (\<lambda>m. concat (map (\<lambda>d.
                   [(d, m, locations ! i), (d, m, locations ! ((i + 1) mod length locations))])
                 (ds m))) ms)) idx))
   = length idx * (2 * sum_list (map (\<lambda>m. length (ds m)) ms))"
  by (rule length_concat_const) (rule length_member_records)

lemma cell_records_locations:
  assumes "x \<in> set (concat (map (\<lambda>i. concat (map (\<lambda>m. concat (map (\<lambda>d.
                   [(d, m, locations ! i), (d, m, locations ! ((i + 1) mod length locations))])
                 (ds m))) ms)) [0..<length locations]))"
  shows "snd (snd x) \<in> set locations"
proof -
  from assms obtain i where i: "i < length locations"
    and x: "snd (snd x) = locations ! i \<or> snd (snd x) = locations ! ((i + 1) mod length locations)"
    by fastforce
  from i have "0 < length locations" by linarith
  then have "(i + 1) mod length locations < length locations" by (rule mod_less_divisor)
  with i x show ?thesis by auto
qed

lemma init_devices:
  assumes "init url w = Inr (g, w')"
  shows "length (device_ids g) = 50" and "distinct (device_ids g)"
  using init_facts(2) [OF assms] devices_distinct by simp_all

lemma init_first_cells:
  assumes "init url w = Inr (g, w')"
  shows "terrorist_cells g =
    [[''O00000'', ''O00001'', ''O00002'', ''O00003'', ''O00004''],
     [''O00005'', ''O00006'', ''O00007'', ''O00008'', ''O00009''],
     [''O00010'', ''O00011'', ''O00012'', ''O00013'', ''O00014'']]"
proof -
  have "map (\<lambda>i. take 5 (drop i (map (\<lambda>i. CHR ''O'' # format_05d i) [0..<30]))) [0, 5, 10] =
    [[''O00000'', ''O00001'', ''O00002'', ''O00003'', ''O00004''],
     [''O00005'', ''O00006'', ''O00007'', ''O00008'', ''O00009''],
     [''O00010'', ''O00011'', ''O00012'', ''O00013'', ''O00014'']]"
    by code_simp
  with init_facts(3,5) [OF assms] show ?thesis by simp
qed

lemma cell_pattern_shape:
  assumes "init url w0 = Inr (g, w1)" and "cell \<in> set (terrorist_cells g)"
  shows "\<exists>locations base_time member_devices ws movements w'.
     cell_locations g cell = Some locations \<and> length locations = 5 \<and> distinct locations
     \<and> cell_pattern_setup g cell w = Inr ((locations, base_time, member_devices), ws)
     \<and> generate_cell_movement_pattern isoformat g cell w = Inr (movements, w')
     \<and> (\<forall>member\<in>set cell. 1 \<le> length (devices_of member_devices member)
           \<and> length (devices_of member_devices member) \<le> 3)
     \<and> length movements
           = 2 * 5 * sum_list (map (\<lambda>member. length (devices_of member_devices member)) cell)
     \<and> (\<forall>r\<in>set movements. location_id (location r) \<in> set locations)"
proof -
  from init_cells(3) [OF assms] obtain locations
    where l: "cell_locations g cell = Some locations" "length locations = 5"
      "distinct locations" by blast
  have "3 \<le> length (device_ids g)" using init_devices(1) [OF assms(1)] by simp
  from cell_pattern_setup_ok [OF l(1) this, of w] obtain base md ws
    where s: "cell_pattern_setup g cell w = Inr ((locations, base, md), ws)"
      and k: "\<forall>m\<in>set cell. 1 \<le> length (devices_of md m) \<and> length (devices_of md m) \<le> 3"
    by blast
  from cell_pattern_records [OF s, of isoformat] obtain movements w'
    where r: "generate_cell_movement_pattern isoformat g cell w = Inr (movements, w')"
      and i: "map ids movements =
         concat (map (\<lambda>i. concat (map (\<lambda>m. concat (map (\<lambda>d.
                   [(d, m, locations ! i), (d, m, locations ! ((i + 1) mod length locations))])
                 (devices_of md m))) cell)) [0..<length locations])" by blast
  have "length movements = length (map ids movements)" by simp
  also have "\<dots> = length [0..<length locations]
       * (2 * sum_list (map (\<lambda>m. length (devices_of md m)) cell))"
    unfolding i by (rule cell_records_length)
  finally have n: "length movements
       = 2 * 5 * sum_list (map (\<lambda>m. length (devices_of md m)) cell)"
    using l(2) by simp
  have "location_id (location r) \<in> set locations" if "r \<in> set movements" for r
  proof -
    from that have "ids r \<in> set (map ids movements)" by simp
    from cell_records_locations [OF this [unfolded i]] show ?thesis by (simp add: ids_def)
  qed
  with l s k r n show ?thesis by blast
qed

text \<open>
  Claim C3. For a generator built by the constructor and each of its cells, whatever the
  random outcomes and the clock, \<^verbatim>\<open>generate_cell_movement_pattern\<close> returns; the
  call assigns between one and three devices to each member; the number of records is
  \<open>2 \<times> 5\<close> times the sum, over the members of the cell, of the number of devices
  assigned to the member; and every record's location is one of the five distinct locations
  the constructor stored for the cell.
\<close>

theorem cell_pattern_count_and_locations:
  assumes "init url w0 = Inr (g, w1)" and "cell \<in> set (terrorist_cells g)"
  shows "\<exists>locations base_time member_devices ws movements w'.
     cell_locations g cell = Some locations \<and> length locations = 5 \<and> distinct locations
     \<and> cell_pattern_setup g cell w = Inr ((locations, base_time, member_devices), ws)
     \<and> generate_cell_movement_pattern isoformat g cell w = Inr (movements, w')
     \<and> (\<forall>member\<in>set cell. 1 \<le> length (devices_of member_devices member)
           \<and> length (devices_of member_devices member) \<le> 3)
     \<and> length movements
           = 2 * 5 * sum_list (map (\<lambda>member. length (devices_of member_devices member)) cell)
     \<and> (\<forall>r\<in>set movements. location_id (location r) \<in> set locations)"
  by (rule cell_pattern_shape [OF assms])

theorem cell_pattern_count_and_locations_witness:
  "\<exists>g w1. init ''http://localhost:5001'' zero_world = Inr (g, w1)
     \<and> [''O00000'', ''O00001'', ''O00002'', ''O00003'', ''O00004''] \<in> set (terrorist_cells g)
     \<and> (\<exists>locations base_time member_devices ws movements w'.
          cell_locations g [''O00000'', ''O00001'', ''O00002'', ''O00003'', ''O00004'']
            = Some locations
          \<and> length locations = 5 \<and> distinct locations
          \<and> cell_pattern_setup g [''O00000'', ''O00001'', ''O00002'', ''O00003'', ''O00004'']
                zero_world = Inr ((locations, base_time, member_devices), ws)
          \<and> generate_cell_movement_pattern epoch_text g
                [''O00000'', ''O00001'', ''O00002'', ''O00003'', ''O00004''] zero_world
              = Inr (movements, w')
          \<and> (\<forall>member\<in>set [''O00000'', ''O00001'', ''O00002'', ''O00003'', ''O00004''].
                1 \<le> length (devices_of member_devices member)
                \<and> length (devices_of member_devices member) \<le> 3)
          \<and> length movements
                = 2 * 5 * sum_list (map (\<lambda>member. length (devices_of member_devices member))
                    [''O00000'', ''O00001'', ''O00002'', ''O00003'', ''O00004''])
          \<and> (\<forall>r\<in>set movements. location_id (location r) \<in> set locations))"
proof -
  from init_ok [of "''http://localhost:5001''" zero_world] obtain g w1
    where i: "init ''http://localhost:5001'' zero_world = Inr (g, w1)" by blast
  have c: "[''O00000'', ''O00001'', ''O00002'', ''O00003'', ''O00004''] \<in> set (terrorist_cells g)"
    by (simp add: init_first_cells [OF i])
  note t = cell_pattern_count_and_locations [OF i c, of zero_world epoch_text]
  show ?thesis
    by (rule exI [of _ g], rule exI [of _ w1], rule conjI [OF i], rule conjI [OF c], rule t)
qed

lemma cell_records_member:
  assumes "i \<in> set idx" "m \<in> set ms" "d \<in> set (ds m)"
  shows "(d, m, locations ! i)
    \<in> set (concat (map (\<lambda>i. concat (map (\<lambda>m. concat (map (\<lambda>d.
                   [(d, m, locations ! i), (d, m, locations ! ((i + 1) mod length locations))])
                 (ds m))) ms)) idx))"
  using assms by auto

lemma cell_pattern_returns:
  assumes "init url w0 = Inr (g, w1)" and "cell \<in> set (terrorist_cells g)"
  shows "\<exists>movements w'. generate_cell_movement_pattern isoformat g cell w = Inr (movements, w')"
proof -
  from init_cells(3) [OF assms] obtain locations
    where l: "cell_locations g cell = Some locations" by blast
  have "3 \<le> length (device_ids g)" using init_devices(1) [OF assms(1)] by simp
  from cell_pattern_setup_ok [OF l this, of w] obtain base md ws
    where s: "cell_pattern_setup g cell w = Inr ((locations, base, md), ws)" by blast
  from cell_pattern_records [OF s, of isoformat] show ?thesis by blast
qed

lemma cell_pattern_KeyError:
  assumes "cell_locations g cell = None"
  shows "generate_cell_movement_pattern isoformat g cell w = Inl KeyError"
  using cell_pattern_setup_KeyError [OF assms, of w]
  by (simp add: generate_cell_movement_pattern_def bindg_fail)

text \<open>
  Claim C8. For a generator built by the constructor, the keys of the mapping from cells to
  locations are exactly its three cells. \<^verbatim>\<open>generate_cell_movement_pattern\<close> returns for
  each of them, whatever the random outcomes; for every other list of owners the lookup
  raises KeyError in the first lines, before anything is drawn or recorded.
\<close>

theorem cell_pattern_defined_on_cells_only:
  assumes "init url w0 = Inr (g, w1)"
  shows "dom (cell_locations g) = set (terrorist_cells g)
     \<and> length (terrorist_cells g) = 3 \<and> distinct (terrorist_cells g)
     \<and> (cell_members \<in> set (terrorist_cells g) \<longrightarrow>
          (\<exists>locations. cell_locations g cell_members = Some locations)
          \<and> (\<exists>movements w'.
                generate_cell_movement_pattern isoformat g cell_members w = Inr (movements, w')))
     \<and> (cell_members \<notin> set (terrorist_cells g) \<longrightarrow>
          cell_locations g cell_members = None
          \<and> cell_pattern_setup g cell_members w = Inl KeyError
          \<and> generate_cell_movement_pattern isoformat g cell_members w = Inl KeyError)"
proof -
  note d = init_facts(6) [OF assms]
  have dist: "distinct (terrorist_cells g)" by (simp add: init_first_cells [OF assms])
  have a: "(\<exists>locations. cell_locations g cell_members = Some locations)
          \<and> (\<exists>movements w'.
                generate_cell_movement_pattern isoformat g cell_members w = Inr (movements, w'))"
    if "cell_members \<in> set (terrorist_cells g)"
    using init_cells(3) [OF assms that] cell_pattern_returns [OF assms that, of isoformat w]
    by blast
  have b: "cell_locations g cell_members = None
          \<and> cell_pattern_setup g cell_members w = Inl KeyError
          \<and> generate_cell_movement_pattern isoformat g cell_members w = Inl KeyError"
    if "cell_members \<notin> set (terrorist_cells g)"
  proof -
    from that d have n: "cell_locations g cell_members = None" by auto
    from n cell_pattern_setup_KeyError [OF n] cell_pattern_KeyError [OF n] show ?thesis
      by simp
  qed
  from d init_cells(1) [OF assms] dist a b show ?thesis by simp
qed

theorem cell_pattern_defined_on_cells_only_witness:
  "\<exists>g w1. init ''http://localhost:5001'' zero_world = Inr (g, w1)
     \<and> [''O00000'', ''O00001'', ''O00002'', ''O00003'', ''O00004''] \<in> set (terrorist_cells g)
     \<and> (\<exists>movements w'. generate_cell_movement_pattern epoch_text g
            [''O00000'', ''O00001'', ''O00002'', ''O00003'', ''O00004''] zero_world
          = Inr (movements, w'))
     \<and> [''O00029''] \<notin> set (terrorist_cells g)
     \<and> generate_cell_movement_pattern epoch_text g [''O00029''] zero_world = Inl KeyError"
proof -
  from init_ok [of "''http://localhost:5001''" zero_world] obtain g w1
    where i: "init ''http://localhost:5001'' zero_world = Inr (g, w1)" by blast
  have c: "[''O00000'', ''O00001'', ''O00002'', ''O00003'', ''O00004''] \<in> set (terrorist_cells g)"
    by (simp add: init_first_cells [OF i])
  have n: "[''O00029''] \<notin> set (terrorist_cells g)"
    by (simp add: init_first_cells [OF i])
  have t1: "\<exists>movements w'. generate_cell_movement_pattern epoch_text g
            [''O00000'', ''O00001'', ''O00002'', ''O00003'', ''O00004''] zero_world
          = Inr (movements, w')"
    using cell_pattern_defined_on_cells_only [OF i,
        of "[''O00000'', ''O00001'', ''O00002'', ''O00003'', ''O00004'']" epoch_text zero_world] c
    by simp
  have t2: "generate_cell_movement_pattern epoch_text g [''O00029''] zero_world = Inl KeyError"
    using cell_pattern_defined_on_cells_only [OF i, of "[''O00029'']" epoch_text zero_world] n
    by simp
  show ?thesis
    by (rule exI [of _ g], rule exI [of _ w1], rule conjI [OF i], rule conjI [OF c],
        rule conjI [OF t1], rule conjI [OF n], rule t2)
qed

subsection \<open>Confidence and the transfer pattern\<close>

lemma uniform_bounds:
  assumes "uniform a b w = Inr (u, w')" and "a \<le> b"
  shows "a \<le> u \<and> u \<le> b"
proof -
  from uniform_range [OF assms(2), of w] obtain v
    where "uniform a b w = Inr (v, advance w)" "a \<le> v" "v \<le> b" by blast
  with assms(1) show ?thesis by simp
qed

lemma normal_movement_confidence:
  assumes "generate_normal_movement isoformat g w = Inr (m, w')"
  shows "0.7 \<le> confidence_level m \<and> confidence_level m \<le> 1"
proof -
  from assms obtain u wa wb where u: "uniform 0.7 1.0 wa = Inr (u, wb)"
    and m: "confidence_level m = round2 u"
    by (auto simp: generate_normal_movement_def bindg_Inr_iff returng_def)
  from uniform_bounds [OF u] have "0.7 \<le> u" "u \<le> 1" by simp_all
  with round2_range_normal [of u] m show ?thesis by simp
qed

lemma normal_movement_returns:
  assumes "device_ids g \<noteq> []" "owner_ids g \<noteq> []" "location_ids g \<noteq> []"
  shows "\<exists>m w'. generate_normal_movement isoformat g w = Inr (m, w')"
proof -
  from choice_ok [OF assms(1), of w] obtain device w1
    where a: "choice (device_ids g) w = Inr (device, w1)" by blast
  from choice_ok [OF assms(2), of w1] obtain owner w2
    where b: "choice (owner_ids g) w1 = Inr (owner, w2)" by blast
  from choice_ok [OF assms(3), of w2] obtain loc w3
    where c: "choice (location_ids g) w2 = Inr (loc, w3)" by blast
  obtain t w4 where d: "now w3 = Inr (t, w4)" by (simp add: now_eq)
  from randint_ok [of 0 48 w4] obtain h w5 where e: "randint 0 48 w4 = Inr (h, w5)" by auto
  from walking_or_vehicle [of w5] obtain mt w6
    where f: "choice [''walking'', ''vehicle''] w5 = Inr (mt, w6)" by blast
  from uniform_ok [of "0.7" "1.0" w6] obtain u w7
    where k: "uniform 0.7 1.0 w6 = Inr (u, w7)" by auto
  show ?thesis
    using a b c d e f k
    by (simp add: generate_normal_movement_def bindg_step returng_def)
qed

lemma cell_pattern_confidence:
  assumes "generate_cell_movement_pattern isoformat g cell w = Inr (movements, w')"
  shows "\<forall>r\<in>set movements. cell_record r"
proof -
  from assms obtain locations base md ws
    where s: "cell_pattern_setup g cell w = Inr ((locations, base, md), ws)"
    by (auto simp: generate_cell_movement_pattern_def bindg_Inr_iff)
  from cell_pattern_records [OF s, of isoformat] assms show ?thesis by auto
qed

lemma transfer_loop_Inr:
  assumes "transfer_loop isoformat cell locations device idx base acc w = Inr (res, w')"
  shows "\<exists>new. res = acc @ new \<and> length new = 2 * length idx
     \<and> (\<forall>r\<in>set new. device_id r = device \<and> confidence_level r = 0.9)
     \<and> (\<forall>k<length idx. transfer_pair device (cell ! (idx ! k))
            (cell ! ((idx ! k + 1) mod length cell)) locations
            (new ! (2 * k)) (new ! (2 * k + 1)))"
  using assms
proof (induction idx arbitrary: base acc w)
  case Nil
  then show ?case by (simp add: returng_def)
next
  case (Cons i idx)
  from Cons.prems obtain loc wa m wb
    where c: "choice locations w = Inr (loc, wa)"
      and r: "transfer_loop isoformat cell locations device idx (base + hours 3)
          (acc @
           [\<lparr>device_id = device, owner_id = cell ! i, timestamp = isoformat base,
             location = \<lparr>location_id = loc\<rparr>, movement_type = ''walking'',
             confidence_level = 0.9\<rparr>,
            \<lparr>device_id = device, owner_id = cell ! ((i + 1) mod length cell),
             timestamp = isoformat (base + minutes m),
             location = \<lparr>location_id = loc\<rparr>, movement_type = ''walking'',
             confidence_level = 0.9\<rparr>]) wb = Inr (res, w')"
    by (auto simp: bindg_Inr_iff)
  define r1 where "r1 = \<lparr>device_id = device, owner_id = cell ! i, timestamp = isoformat base,
             location = \<lparr>location_id = loc\<rparr>, movement_type = ''walking'',
             confidence_level = 0.9\<rparr>"
  define r2 where "r2 = \<lparr>device_id = device, owner_id = cell ! ((i + 1) mod length cell),
             timestamp = isoformat (base + minutes m),
             location = \<lparr>location_id = loc\<rparr>, movement_type = ''walking'',
             confidence_level = 0.9\<rparr>"
  from Cons.IH [OF r] obtain new where n: "res = (acc @ [r1, r2]) @ new"
      "length new = 2 * length idx"
      "\<forall>r\<in>set new. device_id r = device \<and> confidence_level r = 0.9"
    and p: "\<And>k. k < length idx \<Longrightarrow> transfer_pair device (cell ! (idx ! k))
            (cell ! ((idx ! k + 1) mod length cell)) locations
            (new ! (2 * k)) (new ! (2 * k + 1))"
    unfolding r1_def r2_def by blast
  have pair: "transfer_pair device (cell ! i) (cell ! ((i + 1) mod length cell)) locations r1 r2"
    using choice_mem [OF c] by (simp add: transfer_pair_def r1_def r2_def)
  have "transfer_pair device (cell ! ((i # idx) ! k))
            (cell ! (((i # idx) ! k + 1) mod length cell)) locations
            ((r1 # r2 # new) ! (2 * k)) ((r1 # r2 # new) ! (2 * k + 1))"
    if "k < length (i # idx)" for k
  proof (cases k)
    case 0
    with pair show ?thesis by simp
  next
    case (Suc j)
    with that have "j < length idx" by simp
    from p [OF this] Suc show ?thesis by simp
  qed
  moreover have "res = acc @ (r1 # r2 # new)" using n(1) by simp
  moreover have "length (r1 # r2 # new) = 2 * length (i # idx)" using n(2) by simp
  moreover have "\<forall>r\<in>set (r1 # r2 # new). device_id r = device \<and> confidence_level r = 0.9"
    using n(3) by (simp add: r1_def r2_def)
  ultimately show ?case by blast
qed

lemma transfer_loop_returns:
  assumes "locations \<noteq> []"
  shows "\<exists>res w'. transfer_loop isoformat cell locations device idx base acc w = Inr (res, w')"
proof (induction idx arbitrary: base acc w)
  case Nil
  then show ?case by (simp add: returng_def)
next
  case (Cons i idx)
  from choice_ok [OF assms, of w] obtain loc wa
    where c: "choice locations w = Inr (loc, wa)" by blast
  from randint_ok [of 15 30 wa] obtain m wb where r: "randint 15 30 wa = Inr (m, wb)" by auto
  from Cons.IH c r show ?case by (simp add: bindg_step)
qed

lemma transfer_pattern_confidence:
  assumes "generate_device_transfer_pattern isoformat g w = Inr (movements, w')"
  shows "\<forall>r\<in>set movements. confidence_level r = 0.9"
proof -
  from assms obtain cell wa where "choice (terrorist_cells g) w = Inr (cell, wa)"
    and c: "(case cell_locations g cell of
        None \<Rightarrow> throw KeyError
      | Some locations \<Rightarrow>
          bindg (choice (device_ids g)) (\<lambda>device.
          bindg now (\<lambda>t.
          bindg (randint 0 48) (\<lambda>h.
          transfer_loop isoformat cell locations device [0..<length cell] (t - hours h) []))))
        wa = Inr (movements, w')"
    by (auto simp: generate_device_transfer_pattern_def bindg_Inr_iff)
  from c obtain locations device base wb
    where "transfer_loop isoformat cell locations device [0..<length cell] base [] wb
             = Inr (movements, w')"
    by (auto simp: bindg_Inr_iff throw_def split: option.splits)
  from transfer_loop_Inr [OF this] show ?thesis by auto
qed

lemma init_pools_nonempty:
  assumes "init url w = Inr (g, w')"
  shows "device_ids g \<noteq> []" "owner_ids g \<noteq> []" "location_ids g \<noteq> []"
    "terrorist_cells g \<noteq> []"
  using init_facts(2,3,4,5) [OF assms] by simp_all

lemma transfer_pattern_shape:
  assumes "init url w0 = Inr (g, w1)"
  shows "\<exists>cell locations device movements w'.
     generate_device_transfer_pattern isoformat g w = Inr (movements, w')
     \<and> cell \<in> set (terrorist_cells g) \<and> cell_locations g cell = Some locations
     \<and> device \<in> set (device_ids g)
     \<and> length movements = 2 * length cell \<and> length cell = 5
     \<and> (\<forall>r\<in>set movements. device_id r = device \<and> confidence_level r = 0.9)
     \<and> (\<forall>i<length cell. transfer_pair device (cell ! i) (cell ! ((i + 1) mod length cell))
            locations (movements ! (2 * i)) (movements ! (2 * i + 1)))"
proof -
  note ne = init_pools_nonempty [OF assms]
  from choice_ok [OF ne(4), of w] obtain cell wa
    where a: "choice (terrorist_cells g) w = Inr (cell, wa)" "cell \<in> set (terrorist_cells g)"
    by blast
  from init_cells(3) [OF assms a(2)] obtain locations
    where l: "cell_locations g cell = Some locations" "length locations = 5" by blast
  from l(2) have lne: "locations \<noteq> []" by auto
  from choice_ok [OF ne(1), of wa] obtain device wb
    where b: "choice (device_ids g) wa = Inr (device, wb)" "device \<in> set (device_ids g)"
    by blast
  obtain t wc where c: "now wb = Inr (t, wc)" by (simp add: now_eq)
  from randint_ok [of 0 48 wc] obtain h wd where d: "randint 0 48 wc = Inr (h, wd)" by auto
  from transfer_loop_returns [OF lne, of isoformat cell device "[0..<length cell]"
      "t - hours h" "[]" wd]
  obtain movements w' where
    e: "transfer_loop isoformat cell locations device [0..<length cell] (t - hours h) [] wd
          = Inr (movements, w')" by blast
  have run: "generate_device_transfer_pattern isoformat g w = Inr (movements, w')"
    using a(1) l(1) b(1) c d e by (simp add: generate_device_transfer_pattern_def bindg_step)
  from transfer_loop_Inr [OF e] have
    n: "length movements = 2 * length cell"
    and s: "\<forall>r\<in>set movements. device_id r = device \<and> confidence_level r = 0.9"
    and p: "\<forall>i<length cell. transfer_pair device (cell ! ([0..<length cell] ! i))
            (cell ! (([0..<length cell] ! i + 1) mod length cell)) locations
            (movements ! (2 * i)) (movements ! (2 * i + 1))"
    by auto
  from p have p': "\<forall>i<length cell. transfer_pair device (cell ! i)
            (cell ! ((i + 1) mod length cell)) locations
            (movements ! (2 * i)) (movements ! (2 * i + 1))" by simp
  from init_cells(2) [OF assms a(2)] have five: "length cell = 5" by simp
  from run a(2) l(1) b(2) n five s p' show ?thesis by blast
qed

text \<open>
  Claim C4. For a generator built by the constructor, whatever the random outcomes and the
  clock, \<^verbatim>\<open>generate_device_transfer_pattern\<close> returns, for one of the cells and one
  device of the pool, twice as many records as the cell has members, which is ten; every
  record carries that device; and for each index \<open>i\<close> of the cell the records at
  positions \<open>2i\<close> and \<open>2i + 1\<close> are a hand-over from member \<open>i\<close> to member
  \<open>(i + 1) mod\<close> the size of the cell: the same location of the cell's locations, walking,
  confidence 0.9.
\<close>

theorem transfer_pattern_pairs:
  assumes "init url w0 = Inr (g, w1)"
  shows "\<exists>cell locations device movements w'.
     generate_device_transfer_pattern isoformat g w = Inr (movements, w')
     \<and> cell \<in> set (terrorist_cells g) \<and> cell_locations g cell = Some locations
     \<and> device \<in> set (device_ids g)
     \<and> length movements = 2 * length cell \<and> length movements = 10
     \<and> (\<forall>r\<in>set movements. device_id r = device)
     \<and> (\<forall>i<length cell. transfer_pair device (cell ! i) (cell ! ((i + 1) mod length cell))
            locations (movements ! (2 * i)) (movements ! (2 * i + 1)))"
proof -
  from transfer_pattern_shape [OF assms, of isoformat w] obtain cell locations device movements w'
    where "generate_device_transfer_pattern isoformat g w = Inr (movements, w')"
     "cell \<in> set (terrorist_cells g)" "cell_locations g cell = Some locations"
     "device \<in> set (device_ids g)"
     "length movements = 2 * length cell" "length cell = 5"
     "\<forall>r\<in>set movements. device_id r = device \<and> confidence_level r = 0.9"
     "\<forall>i<length cell. transfer_pair device (cell ! i) (cell ! ((i + 1) mod length cell))
            locations (movements ! (2 * i)) (movements ! (2 * i + 1))"
    by blast
  then show ?thesis by (intro exI [of _ cell] exI [of _ locations] exI [of _ device]
      exI [of _ movements] exI [of _ w']) simp
qed

theorem transfer_pattern_pairs_witness:
  "\<exists>g w1. init ''http://localhost:5001'' zero_world = Inr (g, w1)
     \<and> (\<exists>cell locations device movements w'.
          generate_device_transfer_pattern epoch_text g zero_world = Inr (movements, w')
          \<and> cell \<in> set (terrorist_cells g) \<and> cell_locations g cell = Some locations
          \<and> device \<in> set (device_ids g)
          \<and> length movements = 2 * length cell \<and> length movements = 10
          \<and> (\<forall>r\<in>set movements. device_id r = device)
          \<and> (\<forall>i<length cell. transfer_pair device (cell ! i) (cell ! ((i + 1) mod length cell))
                 locations (movements ! (2 * i)) (movements ! (2 * i + 1))))"
proof -
  from init_ok [of "''http://localhost:5001''" zero_world] obtain g w1
    where i: "init ''http://localhost:5001'' zero_world = Inr (g, w1)" by blast
  note t = transfer_pattern_pairs [OF i, of epoch_text zero_world]
  show ?thesis by (rule exI [of _ g], rule exI [of _ w1], rule conjI [OF i], rule t)
qed

text \<open>
  Claim C5. Whatever the generator, the random outcomes and the clock: a record returned by
  \<^verbatim>\<open>generate_normal_movement\<close> has a confidence between 0.7 and 1, every record
  returned by \<^verbatim>\<open>generate_cell_movement_pattern\<close> has a confidence between 0.8 and 1,
  and every record returned by \<^verbatim>\<open>generate_device_transfer_pattern\<close> has confidence
  0.9.
\<close>

theorem confidence_ranges:
  "(generate_normal_movement isoformat g w = Inr (m, w') \<longrightarrow>
      0.7 \<le> confidence_level m \<and> confidence_level m \<le> 1)
   \<and> (generate_cell_movement_pattern isoformat g cell w = Inr (cs, wc) \<longrightarrow>
      (\<forall>r\<in>set cs. 0.8 \<le> confidence_level r \<and> confidence_level r \<le> 1))
   \<and> (generate_device_transfer_pattern isoformat g w = Inr (ts, wt) \<longrightarrow>
      (\<forall>r\<in>set ts. confidence_level r = 0.9))"
proof (intro conjI impI)
  assume "generate_normal_movement isoformat g w = Inr (m, w')"
  from normal_movement_confidence [OF this]
  show "0.7 \<le> confidence_level m" "confidence_level m \<le> 1" by simp_all
next
  assume "generate_cell_movement_pattern isoformat g cell w = Inr (cs, wc)"
  from cell_pattern_confidence [OF this]
  show "\<forall>r\<in>set cs. 0.8 \<le> confidence_level r \<and> confidence_level r \<le> 1"
    by (simp add: cell_record_def)
next
  assume "generate_device_transfer_pattern isoformat g w = Inr (ts, wt)"
  from transfer_pattern_confidence [OF this]
  show "\<forall>r\<in>set ts. confidence_level r = 0.9" .
qed

theorem confidence_ranges_witness:
  "\<exists>g w1 m w' cs wc ts wt.
     init ''http://localhost:5001'' zero_world = Inr (g, w1)
     \<and> generate_normal_movement epoch_text g zero_world = Inr (m, w')
     \<and> 0.7 \<le> confidence_level m \<and> confidence_level m \<le> 1
     \<and> generate_cell_movement_pattern epoch_text g
          [''O00000'', ''O00001'', ''O00002'', ''O00003'', ''O00004''] zero_world = Inr (cs, wc)
     \<and> cs \<noteq> [] \<and> (\<forall>r\<in>set cs. 0.8 \<le> confidence_level r \<and> confidence_level r \<le> 1)
     \<and> generate_device_transfer_pattern epoch_text g zero_world = Inr (ts, wt)
     \<and> ts \<noteq> [] \<and> (\<forall>r\<in>set ts. confidence_level r = 0.9)"
proof -
  from init_ok [of "''http://localhost:5001''" zero_world] obtain g w1
    where i: "init ''http://localhost:5001'' zero_world = Inr (g, w1)" by blast
  note ne = init_pools_nonempty [OF i]
  from normal_movement_returns [OF ne(1,2,3), of epoch_text zero_world] obtain m w'
    where a: "generate_normal_movement epoch_text g zero_world = Inr (m, w')" by blast
  have c: "[''O00000'', ''O00001'', ''O00002'', ''O00003'', ''O00004''] \<in> set (terrorist_cells g)"
    by (simp add: init_first_cells [OF i])
  from cell_pattern_shape [OF i c, of zero_world epoch_text]
  obtain md cs wc
    where b: "generate_cell_movement_pattern epoch_text g
          [''O00000'', ''O00001'', ''O00002'', ''O00003'', ''O00004''] zero_world = Inr (cs, wc)"
      and k: "\<forall>member\<in>set [''O00000'', ''O00001'', ''O00002'', ''O00003'', ''O00004''].
                1 \<le> length (devices_of md member)"
      and n: "length cs = 2 * 5 * sum_list (map (\<lambda>member. length (devices_of md member))
                    [''O00000'', ''O00001'', ''O00002'', ''O00003'', ''O00004''])"
    by blast
  from k have "1 \<le> length (devices_of md ''O00000'')" by simp
  with n have cne: "cs \<noteq> []" by auto
  from transfer_pattern_shape [OF i, of epoch_text zero_world] obtain ts wt
    where d: "generate_device_transfer_pattern epoch_text g zero_world = Inr (ts, wt)"
      and "length ts = 2 * 5" by auto
  then have tne: "ts \<noteq> []" by auto
  note t = confidence_ranges [of epoch_text g zero_world m w'
      "[''O00000'', ''O00001'', ''O00002'', ''O00003'', ''O00004'']" cs wc ts wt]
  from t a have t1: "0.7 \<le> confidence_level m \<and> confidence_level m \<le> 1" by blast
  from t b have t2: "\<forall>r\<in>set cs. 0.8 \<le> confidence_level r \<and> confidence_level r \<le> 1"
    by blast
  from t d have t3: "\<forall>r\<in>set ts. confidence_level r = 0.9" by blast
  from i a t1 b cne t2 d tne t3 show ?thesis by blast
qed

subsection \<open>Shared devices and the seed\<close>

lemma advance_zero_tape: "tape w = (\<lambda>i. 0) \<Longrightarrow> tape (advance w) = (\<lambda>i. 0)"
  by (simp add: advance_def)

lemma assign_devices_zero:
  assumes "pool \<noteq> []"
  shows "tape w = (\<lambda>i. 0) \<Longrightarrow>
    \<exists>w'. assign_devices pool members d w
           = Inr ((\<lambda>m. if m \<in> set members then Some [pool ! 0] else d m), w')"
proof (induction members arbitrary: d w)
  case Nil
  then show ?case by (simp add: returng_def)
next
  case (Cons member members)
  have t1: "tape (advance w) = (\<lambda>i. 0)" using Cons.prems by (rule advance_zero_tape)
  have t2: "tape (advance (advance w)) = (\<lambda>i. 0)" using t1 by (rule advance_zero_tape)
  have k: "randint 1 3 w = Inr (1, advance w)"
    using randint_eq [of 1 3 w] Cons.prems by simp
  have len: "1 \<le> length pool" using assms by (cases pool) simp_all
  have s: "sample pool 1 (advance w) = Inr ([pool ! 0], advance (advance w))"
    using len t1 assms by (simp add: sample_def bindg_def randbelow_def returng_def)
  from Cons.IH [OF t2, of "d(member \<mapsto> [pool ! 0])"] obtain w'
    where r: "assign_devices pool members (d(member \<mapsto> [pool ! 0])) (advance (advance w))
       = Inr ((\<lambda>m. if m \<in> set members then Some [pool ! 0]
                    else (d(member \<mapsto> [pool ! 0])) m), w')" by blast
  have e: "(\<lambda>m. if m \<in> set members then Some [pool ! 0] else (d(member \<mapsto> [pool ! 0])) m)
      = (\<lambda>m. if m \<in> set (member # members) then Some [pool ! 0] else d m)"
    by (rule ext) simp
  have "assign_devices pool (member # members) d w
      = Inr ((\<lambda>m. if m \<in> set (member # members) then Some [pool ! 0] else d m), w')"
    using k s r unfolding e by (simp add: bindg_step)
  then show ?case by blast
qed

lemma cell_pattern_setup_zero:
  assumes "cell_locations g cell = Some locations" and "device_ids g \<noteq> []"
  shows "\<exists>base w'. cell_pattern_setup g cell zero_world
     = Inr ((locations, base, (\<lambda>m. if m \<in> set cell then Some [device_ids g ! 0] else None)), w')"
proof -
  define wa where "wa = zero_world\<lparr>clock := (\<lambda>i. clock zero_world (Suc i))\<rparr>"
  have n: "now zero_world = Inr (0, wa)" by (simp add: now_eq wa_def zero_world_def)
  have ta: "tape wa = (\<lambda>i. 0)" by (simp add: wa_def zero_world_def)
  have h: "randint 0 48 wa = Inr (0, advance wa)" using randint_eq [of 0 48 wa] ta by simp
  from assign_devices_zero [OF assms(2) advance_zero_tape [OF ta], of cell Map.empty]
  obtain w' where a: "assign_devices (device_ids g) cell Map.empty (advance wa)
      = Inr ((\<lambda>m. if m \<in> set cell then Some [device_ids g ! 0] else None), w')" by blast
  have "cell_pattern_setup g cell zero_world
     = Inr ((locations, 0 - hours 0,
             (\<lambda>m. if m \<in> set cell then Some [device_ids g ! 0] else None)), w')"
    using assms(1) n h a by (simp add: cell_pattern_setup_def bindg_step returng_def)
  then show ?thesis by blast
qed

text \<open>
  Claim C10. For a generator built by the constructor and each of its cells: in every call
  the devices assigned to one member are pairwise different; and there are random outcomes
  for which one device is assigned to two different members of the cell and the pattern
  holds records of that device under both owners.
\<close>

theorem cell_pattern_shares_device_between_members:
  assumes "init url w0 = Inr (g, w1)" and "cell \<in> set (terrorist_cells g)"
  shows "(\<forall>w. \<exists>locations base_time member_devices ws.
            cell_pattern_setup g cell w = Inr ((locations, base_time, member_devices), ws)
            \<and> (\<forall>member\<in>set cell. distinct (devices_of member_devices member)))
     \<and> (\<exists>w locations base_time member_devices ws movements w' device i j.
            cell_pattern_setup g cell w = Inr ((locations, base_time, member_devices), ws)
            \<and> generate_cell_movement_pattern isoformat g cell w = Inr (movements, w')
            \<and> cell ! 0 \<noteq> cell ! 1
            \<and> device \<in> set (devices_of member_devices (cell ! 0))
            \<and> device \<in> set (devices_of member_devices (cell ! 1))
            \<and> i < length movements \<and> j < length movements
            \<and> device_id (movements ! i) = device \<and> device_id (movements ! j) = device
            \<and> owner_id (movements ! i) = cell ! 0 \<and> owner_id (movements ! j) = cell ! 1)"
proof
  from init_cells(3) [OF assms] obtain locations
    where l: "cell_locations g cell = Some locations" "length locations = 5" by blast
  note dv = init_devices [OF assms(1)]
  have three: "3 \<le> length (device_ids g)" using dv(1) by simp
  show "\<forall>w. \<exists>locations base_time member_devices ws.
            cell_pattern_setup g cell w = Inr ((locations, base_time, member_devices), ws)
            \<and> (\<forall>member\<in>set cell. distinct (devices_of member_devices member))"
  proof
    fix w
    from cell_pattern_setup_ok [OF l(1) three, of w] dv(2) obtain base md ws
      where "cell_pattern_setup g cell w = Inr ((locations, base, md), ws)"
        "\<forall>m\<in>set cell. distinct (devices_of md m)" by auto
    then show "\<exists>locations base_time member_devices ws.
            cell_pattern_setup g cell w = Inr ((locations, base_time, member_devices), ws)
            \<and> (\<forall>member\<in>set cell. distinct (devices_of member_devices member))" by blast
  qed
  from init_cells(2) [OF assms] have c5: "length cell = 5" "distinct cell" by simp_all
  then have diff: "cell ! 0 \<noteq> cell ! 1" by (simp add: nth_eq_iff_index_eq)
  have m0: "cell ! 0 \<in> set cell" and m1: "cell ! 1 \<in> set cell" using c5(1) by simp_all
  have dne: "device_ids g \<noteq> []" using dv(1) by auto
  define md where "md = (\<lambda>m. if m \<in> set cell then Some [device_ids g ! 0] else None)"
  define device where "device = device_ids g ! 0"
  from cell_pattern_setup_zero [OF l(1) dne] obtain base ws
    where s: "cell_pattern_setup g cell zero_world = Inr ((locations, base, md), ws)"
    unfolding md_def by blast
  from cell_pattern_records [OF s, of isoformat] obtain movements w'
    where r: "generate_cell_movement_pattern isoformat g cell zero_world = Inr (movements, w')"
      and ids: "map ids movements =
         concat (map (\<lambda>i. concat (map (\<lambda>m. concat (map (\<lambda>d.
                   [(d, m, locations ! i), (d, m, locations ! ((i + 1) mod length locations))])
                 (devices_of md m))) cell)) [0..<length locations])" by blast
  have d0: "device \<in> set (devices_of md (cell ! 0))"
    and d1: "device \<in> set (devices_of md (cell ! 1))"
    using m0 m1 by (simp_all add: devices_of_def md_def device_def)
  have z: "0 \<in> set [0..<length locations]" using l(2) by simp
  have "(device, cell ! 0, locations ! 0) \<in> set (map ids movements)"
    unfolding ids using z m0 d0 by (rule cell_records_member)
  then obtain i where i: "i < length movements" "ids (movements ! i) = (device, cell ! 0, locations ! 0)"
    by (auto simp: in_set_conv_nth)
  have "(device, cell ! 1, locations ! 0) \<in> set (map ids movements)"
    unfolding ids using z m1 d1 by (rule cell_records_member)
  then obtain j where j: "j < length movements" "ids (movements ! j) = (device, cell ! 1, locations ! 0)"
    by (auto simp: in_set_conv_nth)
  from i(2) j(2) have "device_id (movements ! i) = device" "device_id (movements ! j) = device"
    "owner_id (movements ! i) = cell ! 0" "owner_id (movements ! j) = cell ! 1"
    by (simp_all add: ids_def)
  with s r diff d0 d1 i(1) j(1)
  show "\<exists>w locations base_time member_devices ws movements w' device i j.
            cell_pattern_setup g cell w = Inr ((locations, base_time, member_devices), ws)
            \<and> generate_cell_movement_pattern isoformat g cell w = Inr (movements, w')
            \<and> cell ! 0 \<noteq> cell ! 1
            \<and> device \<in> set (devices_of member_devices (cell ! 0))
            \<and> device \<in> set (devices_of member_devices (cell ! 1))
            \<and> i < length movements \<and> j < length movements
            \<and> device_id (movements ! i) = device \<and> device_id (movements ! j) = device
            \<and> owner_id (movements ! i) = cell ! 0 \<and> owner_id (movements ! j) = cell ! 1"
    by blast
qed

theorem cell_pattern_shares_device_between_members_witness:
  "\<exists>g w1. init ''http://localhost:5001'' zero_world = Inr (g, w1)
     \<and> [''O00000'', ''O00001'', ''O00002'', ''O00003'', ''O00004''] \<in> set (terrorist_cells g)
     \<and> (\<forall>w. \<exists>locations base_time member_devices ws.
            cell_pattern_setup g [''O00000'', ''O00001'', ''O00002'', ''O00003'', ''O00004''] w
              = Inr ((locations, base_time, member_devices), ws)
            \<and> (\<forall>member\<in>set [''O00000'', ''O00001'', ''O00002'', ''O00003'', ''O00004''].
                  distinct (devices_of member_devices member)))
     \<and> (\<exists>w locations base_time member_devices ws movements w' device i j.
            cell_pattern_setup g [''O00000'', ''O00001'', ''O00002'', ''O00003'', ''O00004''] w
              = Inr ((locations, base_time, member_devices), ws)
            \<and> generate_cell_movement_pattern epoch_text g
                 [''O00000'', ''O00001'', ''O00002'', ''O00003'', ''O00004''] w
               = Inr (movements, w')
            \<and> device \<in> set (devices_of member_devices ''O00000'')
            \<and> device \<in> set (devices_of member_devices ''O00001'')
            \<and> i < length movements \<and> j < length movements
            \<and> device_id (movements ! i) = device \<and> device_id (movements ! j) = device
            \<and> owner_id (movements ! i) = ''O00000'' \<and> owner_id (movements ! j) = ''O00001'')"
proof -
  from init_ok [of "''http://localhost:5001''" zero_world] obtain g w1
    where i: "init ''http://localhost:5001'' zero_world = Inr (g, w1)" by blast
  have c: "[''O00000'', ''O00001'', ''O00002'', ''O00003'', ''O00004''] \<in> set (terrorist_cells g)"
    by (simp add: init_first_cells [OF i])
  note t = cell_pattern_shares_device_between_members [OF i c, of epoch_text]
  from t have t1: "\<forall>w. \<exists>locations base_time member_devices ws.
            cell_pattern_setup g [''O00000'', ''O00001'', ''O00002'', ''O00003'', ''O00004''] w
              = Inr ((locations, base_time, member_devices), ws)
            \<and> (\<forall>member\<in>set [''O00000'', ''O00001'', ''O00002'', ''O00003'', ''O00004''].
                  distinct (devices_of member_devices member))" by (rule conjunct1)
  from t have "\<exists>w locations base_time member_devices ws movements w' device i j.
            cell_pattern_setup g [''O00000'', ''O00001'', ''O00002'', ''O00003'', ''O00004''] w
              = Inr ((locations, base_time, member_devices), ws)
            \<and> generate_cell_movement_pattern epoch_text g
                 [''O00000'', ''O00001'', ''O00002'', ''O00003'', ''O00004''] w
               = Inr (movements, w')
            \<and> [''O00000'', ''O00001'', ''O00002'', ''O00003'', ''O00004''] ! 0
               \<noteq> [''O00000'', ''O00001'', ''O00002'', ''O00003'', ''O00004''] ! 1
            \<and> device \<in> set (devices_of member_devices
                 ([''O00000'', ''O00001'', ''O00002'', ''O00003'', ''O00004''] ! 0))
            \<and> device \<in> set (devices_of member_devices
                 ([''O00000'', ''O00001'', ''O00002'', ''O00003'', ''O00004''] ! 1))
            \<and> i < length movements \<and> j < length movements
            \<and> device_id (movements ! i) = device \<and> device_id (movements ! j) = device
            \<and> owner_id (movements ! i)
                = [''O00000'', ''O00001'', ''O00002'', ''O00003'', ''O00004''] ! 0
            \<and> owner_id (movements ! j)
                = [''O00000'', ''O00001'', ''O00002'', ''O00003'', ''O00004''] ! 1"
    by (rule conjunct2)
  then have t2: "\<exists>w locations base_time member_devices ws movements w' device i j.
            cell_pattern_setup g [''O00000'', ''O00001'', ''O00002'', ''O00003'', ''O00004''] w
              = Inr ((locations, base_time, member_devices), ws)
            \<and> generate_cell_movement_pattern epoch_text g
                 [''O00000'', ''O00001'', ''O00002'', ''O00003'', ''O00004''] w
               = Inr (movements, w')
            \<and> device \<in> set (devices_of member_devices ''O00000'')
            \<and> device \<in> set (devices_of member_devices ''O00001'')
            \<and> i < length movements \<and> j < length movements
            \<and> device_id (movements ! i) = device \<and> device_id (movements ! j) = device
            \<and> owner_id (movements ! i) = ''O00000'' \<and> owner_id (movements ! j) = ''O00001''"
    by simp
  show ?thesis
    by (rule exI [of _ g], rule exI [of _ w1], rule conjI [OF i], rule conjI [OF c],
        rule conjI [OF t1], rule t2)
qed

lemma clock_free_returng: "clock_free (returng x)"
  by (simp add: clock_free_def returng_def)

lemma clock_free_throw: "clock_free (throw e)"
  by (simp add: clock_free_def throw_def)

lemma clock_free_randbelow: "clock_free (randbelow n)"
  by (simp add: clock_free_def randbelow_def advance_def)

lemma clock_free_bindg:
  assumes "clock_free m" and "\<And>x. clock_free (f x)"
  shows "clock_free (bindg m f)"
  unfolding clock_free_def
proof (intro allI)
  fix w c
  from assms(1) have m: "m (w\<lparr>clock := c\<rparr>)
      = map_sum id (map_prod id (\<lambda>w'. w'\<lparr>clock := c\<rparr>)) (m w)"
    by (simp add: clock_free_def)
  show "bindg m f (w\<lparr>clock := c\<rparr>)
      = map_sum id (map_prod id (\<lambda>w'. w'\<lparr>clock := c\<rparr>)) (bindg m f w)"
  proof (cases "m w")
    case (Inl e)
    with m show ?thesis by (simp add: bindg_def)
  next
    case (Inr p)
    obtain x w' where p: "p = (x, w')" by (cases p)
    from assms(2) [of x] have "f x (w'\<lparr>clock := c\<rparr>)
      = map_sum id (map_prod id (\<lambda>w'. w'\<lparr>clock := c\<rparr>)) (f x w')"
      by (simp add: clock_free_def)
    with m Inr p show ?thesis by (simp add: bindg_def)
  qed
qed

lemma clock_free_sample_pool: "clock_free (sample_pool pool k)"
proof (induction k arbitrary: pool)
  case 0
  then show ?case by (simp add: clock_free_returng)
next
  case (Suc k)
  show ?case
    by (simp, intro clock_free_bindg clock_free_randbelow Suc.IH clock_free_returng)
qed

lemma clock_free_sample: "clock_free (sample population k)"
  by (simp add: sample_def clock_free_throw clock_free_sample_pool)

lemma clock_free_sample_cell_locations: "clock_free (sample_cell_locations pool cells d)"
proof (induction cells arbitrary: d)
  case Nil
  then show ?case by (simp add: clock_free_returng)
next
  case (Cons cell cells)
  show ?case by (simp, intro clock_free_bindg clock_free_sample Cons.IH)
qed

lemma clock_free_same_tape:
  assumes "clock_free m" and "tape wa = tape wb"
    and "m wa = Inr (x, wa')" and "m wb = Inr (y, wb')"
  shows "x = y"
proof -
  from assms(2) have "wb = wa\<lparr>clock := clock wb\<rparr>" by simp
  then have "m wb = m (wa\<lparr>clock := clock wb\<rparr>)" by simp
  also have "\<dots> = map_sum id (map_prod id (\<lambda>w'. w'\<lparr>clock := clock wb\<rparr>)) (m wa)"
    using assms(1) by (simp add: clock_free_def)
  finally show ?thesis using assms(3,4) by simp
qed

lemma init_Inr:
  assumes "init url w = Inr (g, w')"
  shows "sample_cell_locations (location_ids g) (terrorist_cells g) Map.empty w
           = Inr (cell_locations g, w')"
proof -
  from assms obtain d where
    "sample_cell_locations (map (\<lambda>i. CHR ''L'' # format_05d i) [0..<20])
       (map (\<lambda>i. take 5 (drop i (map (\<lambda>i. CHR ''O'' # format_05d i) [0..<30]))) [0, 5, 10])
       Map.empty w = Inr (d, w')" "cell_locations g = d"
    by (auto simp: init_def Let_def bindg_Inr_iff returng_def)
  with init_facts(3,4,5) [OF assms] show ?thesis by simp
qed

text \<open>
  Claim C7. Two constructions that start from the same state of the random source, that
  is, from worlds with the same tape whatever their clocks and whatever the addresses
  given, yield the same cells and the same mapping from cells to locations.
\<close>

theorem init_same_seed_same_cells:
  assumes "tape wa = tape wb"
    and "init url_a wa = Inr (ga, wa')" and "init url_b wb = Inr (gb, wb')"
  shows "terrorist_cells ga = terrorist_cells gb \<and> cell_locations ga = cell_locations gb"
proof -
  have c: "terrorist_cells ga = terrorist_cells gb"
    using init_facts(3,5) [OF assms(2)] init_facts(3,5) [OF assms(3)] by simp
  have l: "location_ids ga = location_ids gb"
    using init_facts(4) [OF assms(2)] init_facts(4) [OF assms(3)] by simp
  note a = init_Inr [OF assms(2)]
  note b = init_Inr [OF assms(3), folded c l]
  from clock_free_same_tape [OF clock_free_sample_cell_locations assms(1) a b] c
  show ?thesis by simp
qed

theorem init_same_seed_same_cells_witness:
  "\<exists>ga wa' gb wb'.
     tape zero_world = tape (zero_world\<lparr>clock := (\<lambda>i. 1)\<rparr>)
     \<and> init ''http://localhost:5001'' zero_world = Inr (ga, wa')
     \<and> init ''http://localhost:5001'' (zero_world\<lparr>clock := (\<lambda>i. 1)\<rparr>) = Inr (gb, wb')
     \<and> terrorist_cells ga = terrorist_cells gb \<and> cell_locations ga = cell_locations gb"
proof -
  from init_ok [of "''http://localhost:5001''" zero_world] obtain ga wa'
    where a: "init ''http://localhost:5001'' zero_world = Inr (ga, wa')" by blast
  from init_ok [of "''http://localhost:5001''" "zero_world\<lparr>clock := (\<lambda>i. 1)\<rparr>"] obtain gb wb'
    where b: "init ''http://localhost:5001'' (zero_world\<lparr>clock := (\<lambda>i. 1)\<rparr>) = Inr (gb, wb')"
    by blast
  have t: "tape zero_world = tape (zero_world\<lparr>clock := (\<lambda>i. 1)\<rparr>)" by simp
  from t a b init_same_seed_same_cells [OF t a b] show ?thesis by blast
qed

subsection \<open>The dataset\<close>

lemma normal_loop_eq:
  "normal_loop isoformat g n acc
     = bindg (replicate_gen n (generate_normal_movement isoformat g)) (\<lambda>xs. returng (acc @ xs))"
  by (induction n arbitrary: acc) (simp_all add: bindg_returng_left bindg_assoc)

lemma cell_loop_eq:
  "cell_loop isoformat g cells acc
     = bindg (map_gen (generate_cell_movement_pattern isoformat g) cells)
         (\<lambda>xss. returng (acc @ concat xss))"
  by (induction cells arbitrary: acc) (simp_all add: bindg_returng_left bindg_assoc)

lemma transfers_loop_eq:
  "transfers_loop isoformat g n acc
     = bindg (replicate_gen n (generate_device_transfer_pattern isoformat g))
         (\<lambda>xss. returng (acc @ concat xss))"
  by (induction n arbitrary: acc) (simp_all add: bindg_returng_left bindg_assoc)

lemma generate_dataset_eq:
  "generate_dataset isoformat g =
     bindg (replicate_gen 1000 (generate_normal_movement isoformat g)) (\<lambda>normal.
     bindg (map_gen (generate_cell_movement_pattern isoformat g) (terrorist_cells g)) (\<lambda>cells.
     bindg (replicate_gen 10 (generate_device_transfer_pattern isoformat g)) (\<lambda>transfers.
     returng (sort_key timestamp (normal @ concat cells @ concat transfers)))))"
  unfolding generate_dataset_def normal_loop_eq cell_loop_eq transfers_loop_eq
  by (simp add: bindg_returng_left bindg_assoc)

lemma replicate_gen_ok:
  assumes "\<And>w. \<exists>x w'. m w = Inr (x, w')"
  shows "\<exists>xs w'. replicate_gen n m w = Inr (xs, w') \<and> length xs = n"
proof (induction n arbitrary: w)
  case 0
  then show ?case by (simp add: returng_def)
next
  case (Suc n)
  from assms [of w] obtain x w1 where a: "m w = Inr (x, w1)" by blast
  from Suc [of w1] obtain xs w2 where b: "replicate_gen n m w1 = Inr (xs, w2)" "length xs = n"
    by blast
  have "replicate_gen (Suc n) m w = Inr (x # xs, w2)"
    using a b(1) by (simp add: bindg_step returng_def)
  with b(2) show ?case by simp
qed

lemma map_gen_ok:
  assumes "\<And>x w. x \<in> set xs \<Longrightarrow> \<exists>y w'. f x w = Inr (y, w')"
  shows "\<exists>ys w'. map_gen f xs w = Inr (ys, w') \<and> length ys = length xs"
  using assms
proof (induction xs arbitrary: w)
  case Nil
  then show ?case by (simp add: returng_def)
next
  case (Cons x xs)
  from Cons.prems [of x w] obtain y w1 where a: "f x w = Inr (y, w1)" by auto
  have "\<And>x w. x \<in> set xs \<Longrightarrow> \<exists>y w'. f x w = Inr (y, w')" using Cons.prems by simp
  from Cons.IH [OF this, of w1] obtain ys w2
    where b: "map_gen f xs w1 = Inr (ys, w2)" "length ys = length xs" by blast
  have "map_gen f (x # xs) w = Inr (y # ys, w2)"
    using a b(1) by (simp add: bindg_step returng_def)
  with b(2) show ?case by simp
qed

lemma dataset_parts:
  assumes "init url w0 = Inr (g, w1)"
  shows "\<exists>normal cells transfers wa wb wc.
     replicate_gen 1000 (generate_normal_movement isoformat g) w = Inr (normal, wa)
     \<and> length normal = 1000
     \<and> map_gen (generate_cell_movement_pattern isoformat g) (terrorist_cells g) wa
         = Inr (cells, wb)
     \<and> length cells = 3
     \<and> replicate_gen 10 (generate_device_transfer_pattern isoformat g) wb = Inr (transfers, wc)
     \<and> length transfers = 10
     \<and> generate_dataset isoformat g w
         = Inr (sort_key timestamp (normal @ concat cells @ concat transfers), wc)"
proof -
  note ne = init_pools_nonempty [OF assms]
  from replicate_gen_ok [of "generate_normal_movement isoformat g" 1000 w,
      OF normal_movement_returns [OF ne(1,2,3)]]
  obtain normal wa where
    a: "replicate_gen 1000 (generate_normal_movement isoformat g) w = Inr (normal, wa)"
      "length normal = 1000" by blast
  from map_gen_ok [of "terrorist_cells g" "generate_cell_movement_pattern isoformat g" wa,
      OF cell_pattern_returns [OF assms]]
  obtain cells wb where
    b: "map_gen (generate_cell_movement_pattern isoformat g) (terrorist_cells g) wa
         = Inr (cells, wb)" "length cells = length (terrorist_cells g)" by blast
  have tr: "\<exists>x w'. generate_device_transfer_pattern isoformat g w = Inr (x, w')" for w
    using transfer_pattern_shape [OF assms, of isoformat w] by blast
  from replicate_gen_ok [of "generate_device_transfer_pattern isoformat g" 10 wb, OF tr]
  obtain transfers wc where
    c: "replicate_gen 10 (generate_device_transfer_pattern isoformat g) wb = Inr (transfers, wc)"
      "length transfers = 10" by blast
  have "generate_dataset isoformat g w
         = Inr (sort_key timestamp (normal @ concat cells @ concat transfers), wc)"
    unfolding generate_dataset_eq using a(1) b(1) c(1) by (simp add: bindg_step returng_def)
  with a b c init_cells(1) [OF assms] show ?thesis by (intro exI conjI) simp_all
qed

lemma sorted_chronological:
  assumes "sorted (map timestamp ds)" and "strict_mono_on T isoformat"
    and "i \<le> j" "j < length ds" "a \<in> T" "b \<in> T"
    and "timestamp (ds ! i) = isoformat a" "timestamp (ds ! j) = isoformat b"
  shows "a \<le> (b :: int)"
proof (rule ccontr)
  assume "\<not> a \<le> b"
  then have "b < a" by simp
  with assms(2,5,6) have lt: "isoformat b < isoformat a" by (auto simp: strict_mono_on_def)
  from assms(1,3,4) have "map timestamp ds ! i \<le> map timestamp ds ! j"
    by (simp add: sorted_iff_nth_mono)
  with assms(3,4,7,8) have "isoformat a \<le> isoformat b" by simp
  with lt show False by simp
qed

text \<open>
  Claim C1. For a generator built by the constructor, whatever the random outcomes and the
  clock, \<^verbatim>\<open>generate_dataset\<close> returns: it runs \<^verbatim>\<open>generate_normal_movement\<close> 1000
  times, then \<^verbatim>\<open>generate_cell_movement_pattern\<close> on each of the three cells in their
  order, then \<^verbatim>\<open>generate_device_transfer_pattern\<close> ten times, and returns the
  concatenation of the results in that order, sorted by timestamp. The timestamps of the
  result are non-decreasing; records with equal timestamps keep the order of the
  concatenation; and where the ISO-8601 rendering is strictly increasing on a set of times,
  two records whose timestamps render times of that set are in the order of those times.
\<close>

theorem generate_dataset_assembled_and_sorted:
  assumes "init url w0 = Inr (g, w1)" and "strict_mono_on T isoformat"
  shows "\<exists>normal cells transfers dataset wa wb wc.
     replicate_gen 1000 (generate_normal_movement isoformat g) w = Inr (normal, wa)
     \<and> length normal = 1000
     \<and> map_gen (generate_cell_movement_pattern isoformat g) (terrorist_cells g) wa
         = Inr (cells, wb)
     \<and> length cells = 3
     \<and> replicate_gen 10 (generate_device_transfer_pattern isoformat g) wb = Inr (transfers, wc)
     \<and> length transfers = 10
     \<and> dataset = sort_key timestamp (normal @ concat cells @ concat transfers)
     \<and> generate_dataset isoformat g w = Inr (dataset, wc)
     \<and> sorted (map timestamp dataset)
     \<and> (\<forall>k. filter (\<lambda>m. timestamp m = k) dataset
              = filter (\<lambda>m. timestamp m = k) (normal @ concat cells @ concat transfers))
     \<and> (\<forall>i j a b. i \<le> j \<and> j < length dataset \<and> a \<in> T \<and> b \<in> T
            \<and> timestamp (dataset ! i) = isoformat a \<and> timestamp (dataset ! j) = isoformat b
          \<longrightarrow> a \<le> b)"
proof -
  from dataset_parts [OF assms(1), of isoformat w] obtain normal cells transfers wa wb wc
    where p: "replicate_gen 1000 (generate_normal_movement isoformat g) w = Inr (normal, wa)"
      "length normal = 1000"
      "map_gen (generate_cell_movement_pattern isoformat g) (terrorist_cells g) wa
         = Inr (cells, wb)"
      "length cells = 3"
      "replicate_gen 10 (generate_device_transfer_pattern isoformat g) wb = Inr (transfers, wc)"
      "length transfers = 10"
      "generate_dataset isoformat g w
         = Inr (sort_key timestamp (normal @ concat cells @ concat transfers), wc)"
    by blast
  define dataset where "dataset = sort_key timestamp (normal @ concat cells @ concat transfers)"
  have s: "sorted (map timestamp dataset)" unfolding dataset_def by (rule sorted_sort_key)
  have st: "\<forall>k. filter (\<lambda>m. timestamp m = k) dataset
              = filter (\<lambda>m. timestamp m = k) (normal @ concat cells @ concat transfers)"
    unfolding dataset_def by (intro allI sort_key_stable)
  have ch: "\<forall>i j a b. i \<le> j \<and> j < length dataset \<and> a \<in> T \<and> b \<in> T
            \<and> timestamp (dataset ! i) = isoformat a \<and> timestamp (dataset ! j) = isoformat b
          \<longrightarrow> a \<le> b"
    using sorted_chronological [OF s assms(2)] by blast
  from p(7) have run: "generate_dataset isoformat g w = Inr (dataset, wc)"
    by (simp add: dataset_def)
  show ?thesis
    by (intro exI [of _ normal] exI [of _ cells] exI [of _ transfers] exI [of _ dataset]
        exI [of _ wa] exI [of _ wb] exI [of _ wc] conjI p(1-6) dataset_def run s st ch)
qed

lemma epoch_text_increasing: "strict_mono_on {0, 1} epoch_text"
  by (auto simp: strict_mono_on_def epoch_text_def)

theorem generate_dataset_assembled_and_sorted_witness:
  "\<exists>g w1. init ''http://localhost:5001'' zero_world = Inr (g, w1)
     \<and> strict_mono_on {0, 1} epoch_text
     \<and> (\<exists>normal cells transfers dataset wa wb wc.
          replicate_gen 1000 (generate_normal_movement epoch_text g) zero_world
            = Inr (normal, wa)
          \<and> length normal = 1000
          \<and> map_gen (generate_cell_movement_pattern epoch_text g) (terrorist_cells g) wa
              = Inr (cells, wb)
          \<and> length cells = 3
          \<and> replicate_gen 10 (generate_device_transfer_pattern epoch_text g) wb
              = Inr (transfers, wc)
          \<and> length transfers = 10
          \<and> dataset = sort_key timestamp (normal @ concat cells @ concat transfers)
          \<and> generate_dataset epoch_text g zero_world = Inr (dataset, wc)
          \<and> sorted (map timestamp dataset)
          \<and> (\<forall>k. filter (\<lambda>m. timestamp m = k) dataset
                   = filter (\<lambda>m. timestamp m = k) (normal @ concat cells @ concat transfers))
          \<and> (\<forall>i j a b. i \<le> j \<and> j < length dataset \<and> a \<in> {0, 1} \<and> b \<in> {0, 1}
                 \<and> timestamp (dataset ! i) = epoch_text a
                 \<and> timestamp (dataset ! j) = epoch_text b
               \<longrightarrow> a \<le> b))"
proof -
  from init_ok [of "''http://localhost:5001''" zero_world] obtain g w1
    where i: "init ''http://localhost:5001'' zero_world = Inr (g, w1)" by blast
  note t = generate_dataset_assembled_and_sorted [OF i epoch_text_increasing, of zero_world]
  show ?thesis
    by (rule exI [of _ g], rule exI [of _ w1], rule conjI [OF i],
        rule conjI [OF epoch_text_increasing], rule t)
qed

text \<open>
  Claim C9. \<^verbatim>\<open>generate_dataset\<close> sorts by the timestamp strings themselves. Whatever
  the rendering of times as text, for a generator built by the constructor it returns the
  records it generated, the 1000 normal records, the three cell patterns and the ten
  transfer runs, rearranged by the stable sort on the timestamp string: the result has the
  same records with the same number of occurrences, and the timestamp strings of any two
  of its positions are in the order of strings, the earlier position having the smaller
  or equal string.
\<close>

theorem generate_dataset_sorted_as_strings:
  assumes "init url w0 = Inr (g, w1)"
  shows "\<exists>normal cells transfers dataset wa wb wc.
     replicate_gen 1000 (generate_normal_movement isoformat g) w = Inr (normal, wa)
     \<and> length normal = 1000
     \<and> map_gen (generate_cell_movement_pattern isoformat g) (terrorist_cells g) wa
         = Inr (cells, wb)
     \<and> replicate_gen 10 (generate_device_transfer_pattern isoformat g) wb = Inr (transfers, wc)
     \<and> generate_dataset isoformat g w = Inr (dataset, wc)
     \<and> dataset = sort_key timestamp (normal @ concat cells @ concat transfers)
     \<and> length dataset = length (normal @ concat cells @ concat transfers)
     \<and> (\<forall>r. count_list dataset r = count_list (normal @ concat cells @ concat transfers) r)
     \<and> sorted (map timestamp dataset)
     \<and> (\<forall>i j. i \<le> j \<and> j < length dataset
           \<longrightarrow> timestamp (dataset ! i) \<le> timestamp (dataset ! j))"
proof -
  from dataset_parts [OF assms(1), of isoformat w] obtain normal cells transfers wa wb wc
    where p: "replicate_gen 1000 (generate_normal_movement isoformat g) w = Inr (normal, wa)"
      "length normal = 1000"
      "map_gen (generate_cell_movement_pattern isoformat g) (terrorist_cells g) wa
         = Inr (cells, wb)"
      "replicate_gen 10 (generate_device_transfer_pattern isoformat g) wb = Inr (transfers, wc)"
      "generate_dataset isoformat g w
         = Inr (sort_key timestamp (normal @ concat cells @ concat transfers), wc)"
    by blast
  define dataset where "dataset = sort_key timestamp (normal @ concat cells @ concat transfers)"
  have s: "sorted (map timestamp dataset)" unfolding dataset_def by (rule sorted_sort_key)
  have l: "length dataset = length (normal @ concat cells @ concat transfers)"
    unfolding dataset_def by (rule length_sort)
  have c: "\<forall>r. count_list dataset r = count_list (normal @ concat cells @ concat transfers) r"
  proof
    fix r :: movement
    have "filter (\<lambda>m. timestamp m = timestamp r) dataset
        = filter (\<lambda>m. timestamp m = timestamp r) (normal @ concat cells @ concat transfers)"
      unfolding dataset_def by (rule sort_key_stable)
    then have "length (filter ((=) r) (filter (\<lambda>m. timestamp m = timestamp r) dataset))
        = length (filter ((=) r) (filter (\<lambda>m. timestamp m = timestamp r)
            (normal @ concat cells @ concat transfers)))" by simp
    moreover have "filter ((=) r) (filter (\<lambda>m. timestamp m = timestamp r) xs) = filter ((=) r) xs"
      for xs :: "movement list"
    proof -
      have "filter ((=) r) (filter (\<lambda>m. timestamp m = timestamp r) xs)
          = filter (\<lambda>m. timestamp m = timestamp r \<and> r = m) xs"
        by (simp only: filter_filter)
      also have "\<dots> = filter ((=) r) xs"
        by (rule filter_cong [OF refl]) blast
      finally show ?thesis .
    qed
    ultimately show "count_list dataset r
        = count_list (normal @ concat cells @ concat transfers) r"
      by (simp add: count_list_eq_length_filter)
  qed
  have n: "\<forall>i j. i \<le> j \<and> j < length dataset
           \<longrightarrow> timestamp (dataset ! i) \<le> timestamp (dataset ! j)"
  proof (intro allI impI)
    fix i j
    assume a: "i \<le> j \<and> j < length dataset"
    with s have "map timestamp dataset ! i \<le> map timestamp dataset ! j"
      by (simp add: sorted_iff_nth_mono)
    with a show "timestamp (dataset ! i) \<le> timestamp (dataset ! j)" by simp
  qed
  from p(5) have run: "generate_dataset isoformat g w = Inr (dataset, wc)"
    by (simp add: dataset_def)
  show ?thesis
    by (intro exI [of _ normal] exI [of _ cells] exI [of _ transfers] exI [of _ dataset]
        exI [of _ wa] exI [of _ wb] exI [of _ wc] conjI p(1-4) run dataset_def l c s n)
qed

theorem generate_dataset_sorted_as_strings_witness:
  "\<exists>g w1. init ''http://localhost:5001'' zero_world = Inr (g, w1)
     \<and> (\<exists>normal cells transfers dataset wa wb wc.
          replicate_gen 1000 (generate_normal_movement epoch_text g) zero_world
            = Inr (normal, wa)
          \<and> length normal = 1000
          \<and> map_gen (generate_cell_movement_pattern epoch_text g) (terrorist_cells g) wa
              = Inr (cells, wb)
          \<and> replicate_gen 10 (generate_device_transfer_pattern epoch_text g) wb
              = Inr (transfers, wc)
          \<and> generate_dataset epoch_text g zero_world = Inr (dataset, wc)
          \<and> dataset = sort_key timestamp (normal @ concat cells @ concat transfers)
          \<and> length dataset = length (normal @ concat cells @ concat transfers)
          \<and> (\<forall>r. count_list dataset r
                 = count_list (normal @ concat cells @ concat transfers) r)
          \<and> sorted (map timestamp dataset)
          \<and> (\<forall>i j. i \<le> j \<and> j < length dataset
                \<longrightarrow> timestamp (dataset ! i) \<le> timestamp (dataset ! j)))"
proof -
  from init_ok [of "''http://localhost:5001''" zero_world] obtain g w1
    where i: "init ''http://localhost:5001'' zero_world = Inr (g, w1)" by blast
  note t = generate_dataset_sorted_as_strings [OF i, of epoch_text zero_world]
  show ?thesis by (rule exI [of _ g], rule exI [of _ w1], rule conjI [OF i], rule t)
qed

section \<open>Properties of the replay client\<close>

lemma example_generator_url: "base_url example_generator = ''http://localhost:5001''"
proof -
  from init_ok [of "''http://localhost:5001''" zero_world] obtain g w'
    where "init ''http://localhost:5001'' zero_world = Inr (g, w')"
      "base_url g = ''http://localhost:5001''" by blast
  then show ?thesis by (simp add: example_generator_def)
qed

lemma send_one_eq:
  assumes "sleep (i - 1) delay = None"
    and "\<not> interrupted (post (i - 1) (url @ ''/api/v1/movements'') movement)"
  shows "send_one post sleep url delay total_count i movement st =
     Inr (st\<lparr>results := results st
           @ [result_entry movement (post (i - 1) (url @ ''/api/v1/movements'') movement)],
        events := events st
           @ round_events (url @ ''/api/v1/movements'') delay total_count i movement
               (post (i - 1) (url @ ''/api/v1/movements'') movement)\<rparr>)"
proof (cases "post (i - 1) (url @ ''/api/v1/movements'') movement")
  case (Inl e)
  with assms(2) obtain message where "e = Exception message"
    by (cases e) (simp_all add: interrupted_def failure_def)
  with Inl show ?thesis
    by (simp add: send_one_def try_body_def emit_def append_result_def result_entry_def
        round_events_def failure_def)
next
  case (Inr resp)
  show ?thesis
  proof (cases "json resp")
    case (Inl e)
    with assms(2) Inr obtain message where "e = Exception message"
      by (cases e) (simp_all add: interrupted_def failure_def)
    with Inl Inr show ?thesis
      by (simp add: send_one_def try_body_def emit_def append_result_def result_entry_def
          round_events_def failure_def)
  next
    case body: (Inr body)
    with Inr assms(1) show ?thesis
      by (simp add: send_one_def try_body_def emit_def append_result_def result_entry_def
          round_events_def failure_def Let_def)
  qed
qed

lemma send_loop_eq:
  assumes "\<forall>(k, m)\<in>set (enumerate i movements).
     sleep (k - 1) delay = None \<and> \<not> interrupted (post (k - 1) (url @ ''/api/v1/movements'') m)"
  shows "send_loop post sleep url delay total_count i movements st =
     Inr (st\<lparr>results := results st
           @ map (\<lambda>(k, m). result_entry m (post (k - 1) (url @ ''/api/v1/movements'') m))
               (enumerate i movements),
        events := events st
           @ concat (map (\<lambda>(k, m). round_events (url @ ''/api/v1/movements'') delay total_count
                 k m (post (k - 1) (url @ ''/api/v1/movements'') m)) (enumerate i movements))\<rparr>)"
  using assms
proof (induction movements arbitrary: i st)
  case Nil
  then show ?case by simp
next
  case (Cons movement movements)
  from Cons.prems have h: "sleep (i - 1) delay = None"
    "\<not> interrupted (post (i - 1) (url @ ''/api/v1/movements'') movement)"
    and r: "\<forall>(k, m)\<in>set (enumerate (Suc i) movements).
     sleep (k - 1) delay = None \<and> \<not> interrupted (post (k - 1) (url @ ''/api/v1/movements'') m)"
    by simp_all
  show ?case
    by (simp add: Cons.IH [OF r] send_one_eq [where post = post and sleep = sleep, OF h])
qed

lemma send_movements_run:
  assumes "\<forall>i<length movements. sleep i delay = None
     \<and> \<not> interrupted (post i (base_url g @ ''/api/v1/movements'') (movements ! i))"
  shows "send_movements post sleep g movements delay =
     Inr \<lparr>results =
            map (\<lambda>(i, m). result_entry m (post (i - 1) (base_url g @ ''/api/v1/movements'') m))
              (enumerate 1 movements),
          events =
            Print (''Sending '' @ decimal (length movements) @ '' movements to API...'')
            # concat (map (\<lambda>(i, m). round_events (base_url g @ ''/api/v1/movements'') delay
                  (length movements) i m (post (i - 1) (base_url g @ ''/api/v1/movements'') m))
                (enumerate 1 movements))\<rparr>"
proof -
  have "\<forall>(k, m)\<in>set (enumerate 1 movements).
     sleep (k - 1) delay = None
     \<and> \<not> interrupted (post (k - 1) (base_url g @ ''/api/v1/movements'') m)"
  proof (intro ballI, clarify)
    fix k m
    assume "(k, m) \<in> set (enumerate 1 movements)"
    then have "1 \<le> k" "k < 1 + length movements" "m = movements ! (k - 1)"
      by (simp_all add: in_set_enumerate_eq)
    then have "k - 1 < length movements" "m = movements ! (k - 1)" by simp_all
    with assms show "sleep (k - 1) delay = None
     \<and> \<not> interrupted (post (k - 1) (base_url g @ ''/api/v1/movements'') m)" by simp
  qed
  from send_loop_eq [where post = post and sleep = sleep, OF this] show ?thesis
    by (simp add: send_movements_def Let_def emit_def)
qed

lemma result_entry_movement: "r_movement (result_entry m outcome) = m"
  by (simp add: result_entry_def split: sum.splits)

lemma result_entry_well_formed: "well_formed_result (result_entry m outcome)"
  by (simp add: result_entry_def well_formed_result_def split: sum.splits)

lemma map_snd_enumerate: "map snd (enumerate i xs) = xs"
  by (simp add: enumerate_eq_zip)

lemma enumerate_replicate:
  "map (\<lambda>(i, m). f i m) (enumerate n (replicate k x)) = map (\<lambda>i. f i x) [n..<n + k]"
proof (induction k arbitrary: n)
  case 0
  then show ?case by simp
next
  case (Suc k)
  have "[n..<n + Suc k] = n # [Suc n..<Suc n + k]" by (simp add: upt_conv_Cons)
  with Suc [of "Suc n"] show ?case by simp
qed

lemma decimal_1: "decimal (Suc 0) = ''1''"
  by code_simp

lemma decimal_100: "decimal 100 = ''100''"
  by code_simp

lemma time_sleep_default: "time_sleep n (1 / 10) = None"
  by (simp add: time_sleep_def)


text \<open>
  Claim C2. When the sleep returns for the delay and no request is interrupted, that is,
  what a request raises is an \<^verbatim>\<open>Exception\<close>, \<^verbatim>\<open>send_movements\<close> returns, no
  exception leaves it, and the results are one entry for each record, in the order of the
  records: the entry built from the outcome of the record's request. So there are as many
  entries as records, the entries carry the records in their order, and each entry either
  has a numeric status and a response or has the status \<^verbatim>\<open>"error"\<close> and an error
  message.
\<close>

theorem send_movements_one_entry_per_record:
  assumes "\<forall>i<length movements. sleep i delay = None
     \<and> \<not> interrupted (post i (base_url g @ ''/api/v1/movements'') (movements ! i))"
  shows "\<exists>r. send_movements post sleep g movements delay = Inr r
     \<and> results r
         = map (\<lambda>(i, m). result_entry m (post (i - 1) (base_url g @ ''/api/v1/movements'') m))
             (enumerate 1 movements)
     \<and> length (results r) = length movements
     \<and> map r_movement (results r) = movements
     \<and> (\<forall>e\<in>set (results r). well_formed_result e)"
proof -
  define r where "r = \<lparr>results =
            map (\<lambda>(i, m). result_entry m (post (i - 1) (base_url g @ ''/api/v1/movements'') m))
              (enumerate 1 movements),
          events =
            Print (''Sending '' @ decimal (length movements) @ '' movements to API...'')
            # concat (map (\<lambda>(i, m). round_events (base_url g @ ''/api/v1/movements'') delay
                  (length movements) i m (post (i - 1) (base_url g @ ''/api/v1/movements'') m))
                (enumerate 1 movements))\<rparr>"
  have run: "send_movements post sleep g movements delay = Inr r"
    unfolding r_def using assms by (rule send_movements_run)
  have e: "results r
         = map (\<lambda>(i, m). result_entry m (post (i - 1) (base_url g @ ''/api/v1/movements'') m))
             (enumerate 1 movements)"
    by (simp add: r_def)
  have l: "length (results r) = length movements" unfolding e by simp
  have "r_movement \<circ>
       (\<lambda>(i, m). result_entry m (post (i - 1) (base_url g @ ''/api/v1/movements'') m)) = snd"
    by (rule ext) (simp add: result_entry_movement split: prod.splits)
  then have "map r_movement (results r) = map snd (enumerate 1 movements)"
    unfolding e by (simp only: map_map)
  then have m: "map r_movement (results r) = movements"
    by (simp only: map_snd_enumerate)
  have w: "\<forall>e\<in>set (results r). well_formed_result e"
    unfolding e by (auto simp: result_entry_well_formed)
  from run e l m w show ?thesis by (intro exI [of _ r] conjI)
qed

theorem send_movements_one_entry_per_record_witness:
  "time_sleep 0 (1 / 10) = None
   \<and> \<not> interrupted (accepting_server 0 (base_url example_generator @ ''/api/v1/movements'')
          example_movement)
   \<and> (\<exists>r. send_movements accepting_server time_sleep example_generator [example_movement]
             (1 / 10) = Inr r
        \<and> results r
            = [\<lparr>r_movement = example_movement, r_status = Code 201, r_response = Some ''{}'',
                r_error = None\<rparr>]
        \<and> length (results r) = length [example_movement]
        \<and> map r_movement (results r) = [example_movement]
        \<and> (\<forall>e\<in>set (results r). well_formed_result e))"
proof -
  have a: "time_sleep 0 (1 / 10) = None" by (rule time_sleep_default)
  have b: "\<not> interrupted (accepting_server 0
      (base_url example_generator @ ''/api/v1/movements'') example_movement)"
    by (simp add: interrupted_def failure_def accepting_server_def)
  have h: "\<forall>i<length [example_movement]. time_sleep i (1 / 10) = None
     \<and> \<not> interrupted (accepting_server i (base_url example_generator @ ''/api/v1/movements'')
           ([example_movement] ! i))"
    using a b by simp
  from send_movements_one_entry_per_record [where post = accepting_server
      and sleep = time_sleep, OF h]
  obtain r where c: "send_movements accepting_server time_sleep example_generator
        [example_movement] (1 / 10) = Inr r
    \<and> results r = map (\<lambda>(i, m). result_entry m (accepting_server (i - 1)
          (base_url example_generator @ ''/api/v1/movements'') m))
        (enumerate 1 [example_movement])
    \<and> length (results r) = length [example_movement]
    \<and> map r_movement (results r) = [example_movement]
    \<and> (\<forall>e\<in>set (results r). well_formed_result e)" ..
  note r = c [THEN conjunct1] c [THEN conjunct2, THEN conjunct1]
    c [THEN conjunct2, THEN conjunct2, THEN conjunct1]
    c [THEN conjunct2, THEN conjunct2, THEN conjunct2, THEN conjunct1]
    c [THEN conjunct2, THEN conjunct2, THEN conjunct2, THEN conjunct2]
  from r(2) have e: "results r
      = [\<lparr>r_movement = example_movement, r_status = Code 201, r_response = Some ''{}'',
          r_error = None\<rparr>]"
    by (simp add: result_entry_def accepting_server_def)
  have "\<exists>r. send_movements accepting_server time_sleep example_generator [example_movement]
             (1 / 10) = Inr r
        \<and> results r
            = [\<lparr>r_movement = example_movement, r_status = Code 201, r_response = Some ''{}'',
                r_error = None\<rparr>]
        \<and> length (results r) = length [example_movement]
        \<and> map r_movement (results r) = [example_movement]
        \<and> (\<forall>e\<in>set (results r). well_formed_result e)"
    by (intro exI [of _ r] conjI r(1) e r(3) r(4) r(5))
  with a b show ?thesis by (intro conjI)
qed

text \<open>
  The sleep is in the body of the \<^verbatim>\<open>try\<close>, after the entry of a request that
  succeeded is appended. When \<^verbatim>\<open>time.sleep\<close> raises for the delay, the handler appends a
  second entry for the record.
\<close>

lemma send_one_sleep_raises:
  assumes "post (i - 1) (url @ ''/api/v1/movements'') movement = Inr resp"
    and "json resp = Inr body" and "sleep (i - 1) delay = Some (Exception message)"
  shows "\<exists>st'. send_one post sleep url delay total_count i movement st = Inr st'
     \<and> results st' = results st @
         [\<lparr>r_movement = movement, r_status = Code (status_code resp), r_response = Some body,
           r_error = None\<rparr>,
          \<lparr>r_movement = movement, r_status = Error_status, r_response = None,
           r_error = Some message\<rparr>]"
  using assms
  by (simp add: send_one_def try_body_def emit_def append_result_def Let_def)

text \<open>
  Claim C6, where the code departs from it. A hundred records are sent, with the default
  delay, to a server that cannot be reached. Every request fails; the client emits the
  error notice after each and goes on to the next request. It never sleeps, and after the
  hundredth record it emits no progress notice.
\<close>

theorem send_movements_failed_requests_no_sleep_no_progress:
  "send_movements unreachable_server time_sleep example_generator
       (replicate 100 example_movement) (1 / 10)
     = Inr \<lparr>results = replicate 100
              \<lparr>r_movement = example_movement, r_status = Error_status, r_response = None,
               r_error = Some ''Connection refused''\<rparr>,
            events = Print ''Sending 100 movements to API...''
              # concat (replicate 100
                  [Post ''http://localhost:5001/api/v1/movements'' example_movement,
                   Print ''Error sending movement: Connection refused''])\<rparr>"
proof -
  have h: "\<forall>i<length (replicate 100 example_movement). time_sleep i (1 / 10) = None
     \<and> \<not> interrupted (unreachable_server i (base_url example_generator @ ''/api/v1/movements'')
           (replicate 100 example_movement ! i))"
    by (simp add: time_sleep_default interrupted_def failure_def unreachable_server_def)
  have r: "map (\<lambda>(i, m). result_entry m (unreachable_server (i - 1)
          (base_url example_generator @ ''/api/v1/movements'') m))
        (enumerate 1 (replicate 100 example_movement))
      = replicate 100 \<lparr>r_movement = example_movement, r_status = Error_status,
          r_response = None, r_error = Some ''Connection refused''\<rparr>"
    unfolding enumerate_replicate
    by (simp add: result_entry_def unreachable_server_def map_replicate_const)
  have e: "map (\<lambda>(i, m). round_events (base_url example_generator @ ''/api/v1/movements'')
          (1 / 10) (length (replicate 100 example_movement)) i m
          (unreachable_server (i - 1) (base_url example_generator @ ''/api/v1/movements'') m))
        (enumerate 1 (replicate 100 example_movement))
      = replicate 100 [Post ''http://localhost:5001/api/v1/movements'' example_movement,
          Print ''Error sending movement: Connection refused'']"
    unfolding enumerate_replicate
    by (simp add: round_events_def failure_def unreachable_server_def map_replicate_const
        example_generator_url)
  show ?thesis
    unfolding send_movements_run [where post = unreachable_server and sleep = time_sleep, OF h]
      r e
    by (simp add: decimal_100)
qed


text \<open>
  The same hundred records sent to a server that accepts every request: the client sleeps
  after each record and emits the progress notice after the hundredth.
\<close>

lemma send_movements_accepted_requests_sleep_and_progress:
  "send_movements accepting_server time_sleep example_generator
       (replicate 100 example_movement) (1 / 10)
     = Inr \<lparr>results = replicate 100
              \<lparr>r_movement = example_movement, r_status = Code 201, r_response = Some ''{}'',
               r_error = None\<rparr>,
            events = Print ''Sending 100 movements to API...''
              # concat (replicate 99
                  [Post ''http://localhost:5001/api/v1/movements'' example_movement,
                   Sleep (1 / 10)])
              @ [Post ''http://localhost:5001/api/v1/movements'' example_movement,
                 Print ''Processed 100/100 movements'', Sleep (1 / 10)]\<rparr>"
proof -
  have h: "\<forall>i<length (replicate 100 example_movement). time_sleep i (1 / 10) = None
     \<and> \<not> interrupted (accepting_server i (base_url example_generator @ ''/api/v1/movements'')
           (replicate 100 example_movement ! i))"
    by (simp add: time_sleep_default interrupted_def failure_def accepting_server_def)
  have r: "map (\<lambda>(i, m). result_entry m (accepting_server (i - 1)
          (base_url example_generator @ ''/api/v1/movements'') m))
        (enumerate 1 (replicate 100 example_movement))
      = replicate 100 \<lparr>r_movement = example_movement, r_status = Code 201,
          r_response = Some ''{}'', r_error = None\<rparr>"
    unfolding enumerate_replicate
    by (simp add: result_entry_def accepting_server_def map_replicate_const)
  define f where "f i = round_events ''http://localhost:5001/api/v1/movements'' (1 / 10) 100 i
      example_movement (accepting_server (i - 1) ''http://localhost:5001/api/v1/movements''
        example_movement)" for i
  have one: "(1 :: nat) + 100 = Suc 100" by simp
  have split: "[1..<Suc 100] = [1..<100] @ [100 :: nat]" by (rule upt_Suc_append) simp
  have early: "f i = [Post ''http://localhost:5001/api/v1/movements'' example_movement,
      Sleep (1 / 10)]" if "i \<in> set [1..<100]" for i
  proof -
    from that have "i mod 100 \<noteq> 0" by simp
    then show ?thesis
      by (simp add: f_def round_events_def failure_def accepting_server_def)
  qed
  have "map f [1..<100] = map (\<lambda>i. [Post ''http://localhost:5001/api/v1/movements''
      example_movement, Sleep (1 / 10)]) [1..<100]"
    by (rule map_cong [OF refl]) (rule early)
  then have first: "map f [1..<100] = replicate 99
      [Post ''http://localhost:5001/api/v1/movements'' example_movement, Sleep (1 / 10)]"
    by (simp add: map_replicate_const)
  have last: "f 100 = [Post ''http://localhost:5001/api/v1/movements'' example_movement,
      Print ''Processed 100/100 movements'', Sleep (1 / 10)]"
    by (simp add: f_def round_events_def failure_def accepting_server_def decimal_100)
  have e: "map (\<lambda>(i, m). round_events (base_url example_generator @ ''/api/v1/movements'')
          (1 / 10) (length (replicate 100 example_movement)) i m
          (accepting_server (i - 1) (base_url example_generator @ ''/api/v1/movements'') m))
        (enumerate 1 (replicate 100 example_movement))
      = replicate 99
          [Post ''http://localhost:5001/api/v1/movements'' example_movement, Sleep (1 / 10)]
        @ [[Post ''http://localhost:5001/api/v1/movements'' example_movement,
            Print ''Processed 100/100 movements'', Sleep (1 / 10)]]"
  proof -
    have "map (\<lambda>(i, m). round_events (base_url example_generator @ ''/api/v1/movements'')
          (1 / 10) (length (replicate 100 example_movement)) i m
          (accepting_server (i - 1) (base_url example_generator @ ''/api/v1/movements'') m))
        (enumerate 1 (replicate 100 example_movement)) = map f [1..<Suc 100]"
      unfolding enumerate_replicate one
      by (simp only: f_def [abs_def] example_generator_url length_replicate append.simps)
    also have "\<dots> = map f [1..<100] @ [f 100]" unfolding split by simp
    finally show ?thesis unfolding first last .
  qed
  show ?thesis
    unfolding send_movements_run [where post = accepting_server and sleep = time_sleep, OF h]
      r e
    by (simp add: decimal_100)
qed

end
